theory Spec2Isabelle
  imports Complex_Main
begin

section \<open>The job queue of \<open>src/JobQueue.ts\<close>\<close>

text \<open>
  The class \<open>JobQueue\<close> runs on a single-threaded event loop. Its methods are
  synchronous between two suspension points (an \<open>await\<close>), so every stretch of code
  between two suspension points is one atomic transition of the queue's state. The
  model below has one function per such stretch, named after the method it belongs to,
  and a function \<open>step\<close> that lets the environment choose which stretch runs next:
  a caller invoking \<open>schedule\<close> or \<open>dispose\<close>, a timer of the runtime firing, a task
  supplied by the caller settling, or time passing.

  What is taken for granted about the runtime:
  \<^item> \<open>Date.now()\<close> never goes back; it is a whole number of milliseconds, counted
    here from the construction of the queue (the code only ever subtracts two readings);
  \<^item> a callback given to \<open>setTimeout\<close> runs once, not before the delay that Node
    makes of the number it is given (\<open>setTimeout_delay\<close> below) has passed, and possibly
    later;
  \<^item> calling a task either throws at once or returns a promise, which settles at
    most once, with a value or with an error;
  \<^item> \<open>concurrencyLimit\<close> and \<open>rateLimit\<close> are integers; \<open>timeoutLimit\<close> is any number of
    seconds, and its product by 1000 is taken exactly. The product that a double holds
    is the exact product of a number nearby, and what is proved about \<open>timeoutLimit\<close>
    below is proved for every number.
\<close>

subsection \<open>Values handed to and from the caller\<close>

datatype js_value = JsValue nat
  \<comment> \<open>what a task returns; opaque to the queue\<close>

datatype js_error = Error string
  \<comment> \<open>\<open>new Error(message)\<close>: the code has no error classes of its own, its errors
      differ by their message only; also what a failing task throws\<close>

datatype outcome = Fulfilled js_value | Failed js_error
  \<comment> \<open>how the promise returned by \<open>fn(...args)\<close> settles\<close>

record JobResult =
  result :: js_value
  queueTime :: int
  executionTime :: int

datatype settlement = Resolve JobResult | Reject js_error
  \<comment> \<open>the call made on the future returned by \<open>schedule\<close>\<close>

datatype call = Returns | Throws js_error
  \<comment> \<open>how the call \<open>fn(...args)\<close> ends: with a promise, or with an exception\<close>

record JobQueueOptions =
  opt_concurrencyLimit :: "int option"
  opt_rateLimit :: "int option"
  opt_timeoutLimit :: "real option"

subsection \<open>The state\<close>

text \<open>
  An entry of \<open>queue\<close> is the object \<open>{ resolve, reject, job }\<close>. The pair
  \<open>resolve\<close>/\<open>reject\<close> is identified by the number of the \<open>schedule\<close> call that
  created it; the closure \<open>job\<close> captures \<open>queueStartTime\<close>.
\<close>

record entry =
  ident :: nat
  queueStartTime :: int

text \<open>
  Where the closure \<open>job\<close> of one \<open>schedule\<close> call stands:
  not yet called (\<open>Pending\<close>), suspended in the \<open>setTimeout\<close> of \<open>enforceRateLimit\<close>
  with its local \<open>now\<close> (\<open>RateWait\<close>), returned from \<open>enforceRateLimit\<close> with the call
  of \<open>executeJob\<close> as its continuation (\<open>Ready\<close>), suspended in \<open>executeJob\<close> on the
  \<open>Promise.race\<close> with its locals \<open>startTime\<close> and \<open>queueTime\<close> (\<open>Running\<close>; the
  local \<open>queueTime\<close> is written \<open>qTime\<close> below, the name being taken by the field of
  \<open>JobResult\<close>), suspended in \<open>executeJob\<close> on the promise that \<open>executeWithTimeout\<close>
  rejected because the task threw when it was called (\<open>Thrown\<close>), or with its future
  settled (\<open>Settled\<close>).
\<close>

datatype phase =
    Pending
  | RateWait entry int
  | Ready entry
  | Running int int
  | Thrown js_error
  | Settled

datatype timer_kind = RateTimer | TimeoutTimer

record JobQueue =
  \<comment> \<open>the fields of the class\<close>
  concurrencyLimit :: int
  rateLimit :: "int option"  \<comment> \<open>\<open>None\<close> is \<open>Infinity\<close>\<close>
  timeoutLimit :: real  \<comment> \<open>milliseconds\<close>
  activeJobs :: int
  queue :: "entry list"
  isDisposed :: bool
  jobStartTimes :: "int list"
  \<comment> \<open>the runtime: the clock, the suspended closures, the pending \<open>setTimeout\<close> callbacks
      with the time each is due\<close>
  clock :: int
  phases :: "nat \<Rightarrow> phase"
  timers :: "timer_kind \<times> nat \<rightharpoonup> int"
  \<comment> \<open>history, written but never read by the code: the number of \<open>schedule\<close> calls so far,
      every \<open>queue.push\<close> with its \<open>queueStartTime\<close>, every \<open>queue.shift()\<close> with its time,
      every call of a task with its time, every \<open>jobStartTimes.push\<close> with the job it is
      for, and every \<open>resolve\<close>/\<open>reject\<close> of a caller's future\<close>
  nextId :: nat
  accepted :: "(nat \<times> int) list"
  removed :: "(nat \<times> int) list"
  started :: "(nat \<times> int) list"
  appended :: "(nat \<times> int) list"
  delivered :: "(nat \<times> settlement) list"

subsection \<open>The constructor\<close>

definition new_JobQueue :: "JobQueueOptions \<Rightarrow> js_error + JobQueue" where
  "new_JobQueue options =
    (if (case opt_concurrencyLimit options of None \<Rightarrow> False | Some c \<Rightarrow> c \<le> 0)
       then Inl (Error ''concurrencyLimit must be greater than 0'')
     else if (case opt_rateLimit options of None \<Rightarrow> False | Some r \<Rightarrow> r \<le> 0)
       then Inl (Error ''rateLimit must be greater than 0'')
     else if (case opt_timeoutLimit options of None \<Rightarrow> False | Some t \<Rightarrow> t \<le> 0)
       then Inl (Error ''timeoutLimit must be greater than 0'')
     else Inr \<lparr>
       concurrencyLimit = (case opt_concurrencyLimit options of None \<Rightarrow> 1000 | Some c \<Rightarrow> c),
       rateLimit = opt_rateLimit options,
       timeoutLimit = (case opt_timeoutLimit options of None \<Rightarrow> 1200 | Some t \<Rightarrow> t) * 1000,
       activeJobs = 0,
       queue = [],
       isDisposed = False,
       jobStartTimes = [],
       clock = 0,
       phases = (\<lambda>_. Pending),
       timers = Map.empty,
       nextId = 0,
       accepted = [],
       removed = [],
       started = [],
       appended = [],
       delivered = [] \<rparr>)"

subsection \<open>\<open>setTimeout\<close>\<close>

text \<open>
  The delay, in milliseconds, that Node's \<open>setTimeout\<close> makes of the number it is given:
  a number above 2147483647 or below 1 is replaced by 1, any other is truncated to an
  integer. The code hands \<open>waitTime\<close> and \<open>this.timeoutLimit\<close> to \<open>setTimeout\<close> as they
  are.
\<close>

definition setTimeout_delay :: "real \<Rightarrow> int" where
  "setTimeout_delay d = (if 1 \<le> d \<and> d \<le> 2147483647 then \<lfloor>d\<rfloor> else 1)"

subsection \<open>\<open>enforceRateLimit\<close>\<close>

text \<open>
  \<open>push_now\<close> is the last statement, \<open>this.jobStartTimes.push(now)\<close>, with the local
  \<open>now\<close> of the call; the call then returns, and the closure \<open>job\<close> that awaited it is
  ready to go on.
\<close>

definition push_now :: "entry \<Rightarrow> int \<Rightarrow> JobQueue \<Rightarrow> JobQueue" where
  "push_now e now s =
     s\<lparr> jobStartTimes := jobStartTimes s @ [now],
        appended := appended s @ [(ident e, now)],
        phases := (phases s)(ident e := Ready e) \<rparr>"

text \<open>
  The call up to its first suspension point, made by the closure \<open>job\<close> of the entry
  \<open>e\<close>. With \<open>rateLimit\<close> a positive integer, \<open>length \<ge> rateLimit\<close> makes the filtered
  array non-empty; on an empty array \<open>jobStartTimes[0]\<close> is \<open>undefined\<close>, \<open>waitTime\<close> is
  \<open>NaN\<close> and \<open>waitTime > 0\<close> is false. A wait arms a \<open>setTimeout\<close> of \<open>waitTime\<close>.
\<close>

definition enforceRateLimit :: "entry \<Rightarrow> JobQueue \<Rightarrow> JobQueue" where
  "enforceRateLimit e s =
    (case rateLimit s of
       None \<Rightarrow> s\<lparr> phases := (phases s)(ident e := Ready e) \<rparr>
     | Some r \<Rightarrow>
        (let now = clock s;
             s1 = s\<lparr> jobStartTimes := filter (\<lambda>time. now - time < 60000) (jobStartTimes s) \<rparr>
         in if int (length (jobStartTimes s1)) \<ge> r then
              (case jobStartTimes s1 of
                 [] \<Rightarrow> push_now e now s1
               | oldestStart # _ \<Rightarrow>
                  (let waitTime = 60000 - (now - oldestStart)
                   in if waitTime > 0 then
                        s1\<lparr> phases := (phases s1)(ident e := RateWait e now),
                            timers := (timers s1)((RateTimer, ident e) \<mapsto>
                              now + setTimeout_delay (real_of_int waitTime)) \<rparr>
                      else push_now e now s1))
            else push_now e now s1))"

text \<open>
  The rest of the call, run when its \<open>setTimeout\<close> fires: the \<open>now\<close> that is pushed is
  the one read before the wait.
\<close>

definition enforceRateLimit_resume :: "nat \<Rightarrow> JobQueue \<Rightarrow> JobQueue" where
  "enforceRateLimit_resume j s =
    (case timers s (RateTimer, j) of
       None \<Rightarrow> s
     | Some due \<Rightarrow>
        if clock s < due then s
        else (let s1 = s\<lparr> timers := (timers s)((RateTimer, j) := None) \<rparr>
              in case phases s1 j of
                   RateWait e now \<Rightarrow> push_now e now s1
                 | _ \<Rightarrow> s1))"

subsection \<open>\<open>processNextJob\<close>\<close>

text \<open>
  \<open>next.job()\<close> runs the closure up to its first suspension point, which lies in
  \<open>enforceRateLimit\<close> or right after it.
\<close>

definition processNextJob :: "JobQueue \<Rightarrow> JobQueue" where
  "processNextJob s =
    (if length (queue s) = 0 \<or> activeJobs s \<ge> concurrencyLimit s then s
     else (case queue s of
             [] \<Rightarrow> s
           | next # rest \<Rightarrow>
               enforceRateLimit next
                 (s\<lparr> queue := rest,
                     removed := removed s @ [(ident next, clock s)],
                     activeJobs := activeJobs s + 1 \<rparr>)))"

subsection \<open>\<open>schedule\<close>\<close>

definition schedule :: "JobQueue \<Rightarrow> JobQueue" where
  "schedule s =
    (let j = nextId s; s0 = s\<lparr> nextId := j + 1 \<rparr>
     in if isDisposed s then
          s0\<lparr> phases := (phases s0)(j := Settled),
              delivered := delivered s0 @ [(j, Reject (Error ''Queue has been disposed''))] \<rparr>
        else
          (let e = \<lparr> ident = j, queueStartTime = clock s \<rparr>
           in processNextJob
                (s0\<lparr> queue := queue s0 @ [e],
                     accepted := accepted s0 @ [(j, queueStartTime e)] \<rparr>)))"

subsection \<open>\<open>executeJob\<close> and \<open>executeWithTimeout\<close>\<close>

text \<open>
  \<open>executeJob\<close> up to its suspension on \<open>await this.executeWithTimeout(fn, args)\<close>. It
  runs as the continuation of the closure \<open>job\<close>, so only for a job that has returned
  from \<open>enforceRateLimit\<close>. \<open>startTime\<close> and \<open>queueTime\<close> are computed, and
  \<open>executeWithTimeout\<close> builds the array for \<open>Promise.race\<close>: it calls the task first.
  If the call throws, \<open>setTimeout\<close> is never reached and \<open>executeJob\<close> awaits a rejected
  promise. If it returns, \<open>setTimeout\<close> is given \<open>this.timeoutLimit\<close> and \<open>executeJob\<close>
  awaits the race.
\<close>

definition executeJob :: "nat \<Rightarrow> call \<Rightarrow> JobQueue \<Rightarrow> JobQueue" where
  "executeJob j c s =
    (case phases s j of
       Ready e \<Rightarrow>
        (let startTime = clock s;
             qTime = startTime - queueStartTime e
         in case c of
              Throws err \<Rightarrow>
                s\<lparr> phases := (phases s)(j := Thrown err),
                   started := started s @ [(j, startTime)] \<rparr>
            | Returns \<Rightarrow>
                s\<lparr> phases := (phases s)(j := Running startTime qTime),
                   started := started s @ [(j, startTime)],
                   timers := (timers s)((TimeoutTimer, j) \<mapsto>
                     clock s + setTimeout_delay (timeoutLimit s)) \<rparr>)
     | _ \<Rightarrow> s)"

text \<open>
  The rest of \<open>executeJob\<close>, run once the race is decided: \<open>resolve\<close> or \<open>reject\<close> is
  called on the caller's future (\<open>out\<close> is that call), and the \<open>finally\<close> block
  decrements \<open>activeJobs\<close> and calls \<open>processNextJob\<close>.
\<close>

definition executeJob_settle :: "nat \<Rightarrow> settlement \<Rightarrow> JobQueue \<Rightarrow> JobQueue" where
  "executeJob_settle j out s =
     processNextJob
       (s\<lparr> phases := (phases s)(j := Settled),
           delivered := delivered s @ [(j, out)],
           activeJobs := activeJobs s - 1 \<rparr>)"

text \<open>
  The task's promise settles. If the race is still open the task wins it: a value
  is wrapped with \<open>queueTime\<close> and \<open>executionTime = Date.now() - startTime\<close>, an
  error is passed to \<open>reject\<close> as it is. If the race is decided already, nothing listens.
\<close>

definition task_settles :: "nat \<Rightarrow> outcome \<Rightarrow> JobQueue \<Rightarrow> JobQueue" where
  "task_settles j out s =
    (case phases s j of
       Running startTime qTime \<Rightarrow>
        (case out of
           Fulfilled v \<Rightarrow>
             executeJob_settle j
               (Resolve \<lparr> result = v, queueTime = qTime,
                          executionTime = clock s - startTime \<rparr>) s
         | Failed err \<Rightarrow> executeJob_settle j (Reject err) s)
     | _ \<Rightarrow> s)"

text \<open>
  The \<open>catch\<close> block of \<open>executeJob\<close> for a task that threw when it was called: the
  exception is passed to \<open>reject\<close> as it is.
\<close>

definition executeJob_catch :: "nat \<Rightarrow> JobQueue \<Rightarrow> JobQueue" where
  "executeJob_catch j s =
    (case phases s j of
       Thrown err \<Rightarrow> executeJob_settle j (Reject err) s
     | _ \<Rightarrow> s)"

text \<open>
  The timeout's callback runs \<open>timeoutReject(new Error('Job timed out'))\<close>, which
  decides the race if it is still open and does nothing otherwise. No code removes the
  callback before it runs.
\<close>

definition timeout_fires :: "nat \<Rightarrow> JobQueue \<Rightarrow> JobQueue" where
  "timeout_fires j s =
    (case timers s (TimeoutTimer, j) of
       None \<Rightarrow> s
     | Some due \<Rightarrow>
        if clock s < due then s
        else (let s1 = s\<lparr> timers := (timers s)((TimeoutTimer, j) := None) \<rparr>
              in case phases s1 j of
                   Running startTime qTime \<Rightarrow>
                     executeJob_settle j (Reject (Error ''Job timed out'')) s1
                 | _ \<Rightarrow> s1))"

subsection \<open>\<open>size\<close>, \<open>active\<close>, \<open>dispose\<close>\<close>

text \<open>\<open>size\<close> is called \<open>size_q\<close> here. The \<open>while\<close> loop of \<open>dispose\<close> is \<open>dispose_loop\<close>.\<close>

definition size_q :: "JobQueue \<Rightarrow> nat" where
  "size_q s = length (queue s)"

definition active :: "JobQueue \<Rightarrow> int" where
  "active s = activeJobs s"

function dispose_loop :: "JobQueue \<Rightarrow> JobQueue" where
  "dispose_loop s =
    (if length (queue s) > 0 then
       (case queue s of
          [] \<Rightarrow> s
        | job # rest \<Rightarrow>
            dispose_loop
              (s\<lparr> queue := rest,
                  removed := removed s @ [(ident job, clock s)],
                  phases := (phases s)(ident job := Settled),
                  delivered := delivered s @
                    [(ident job, Reject (Error ''Queue has been disposed''))] \<rparr>))
     else s)"
  by pat_completeness auto
termination
  by (relation "measure (\<lambda>s. length (queue s))") auto

declare dispose_loop.simps [simp del]

definition dispose :: "JobQueue \<Rightarrow> JobQueue" where
  "dispose s = dispose_loop (s\<lparr> isDisposed := True \<rparr>)"

subsection \<open>The event loop\<close>

text \<open>
  An event that cannot happen in the state it meets (a timer that is not pending or not
  yet due, a continuation of a job that is not at that point) leaves the state as it is.
\<close>

datatype event =
    Tick nat  \<comment> \<open>the clock advances\<close>
  | Schedule  \<comment> \<open>a caller invokes \<open>schedule\<close>\<close>
  | Dispose  \<comment> \<open>a caller invokes \<open>dispose\<close>\<close>
  | RateTimerFires nat  \<comment> \<open>the \<open>setTimeout\<close> of \<open>enforceRateLimit\<close> for a job\<close>
  | JobContinues nat call  \<comment> \<open>the closure \<open>job\<close> continues after \<open>enforceRateLimit\<close>
      and calls its task\<close>
  | CatchRuns nat  \<comment> \<open>\<open>executeJob\<close> continues for a job whose task threw\<close>
  | TaskSettles nat outcome  \<comment> \<open>the promise of a job's task settles\<close>
  | TimeoutFires nat  \<comment> \<open>the \<open>setTimeout\<close> of \<open>executeWithTimeout\<close> for a job\<close>

fun step :: "event \<Rightarrow> JobQueue \<Rightarrow> JobQueue" where
  "step (Tick d) s = s\<lparr> clock := clock s + int d \<rparr>"
| "step Schedule s = schedule s"
| "step Dispose s = dispose s"
| "step (RateTimerFires j) s = enforceRateLimit_resume j s"
| "step (JobContinues j c) s = executeJob j c s"
| "step (CatchRuns j) s = executeJob_catch j s"
| "step (TaskSettles j out) s = task_settles j out s"
| "step (TimeoutFires j) s = timeout_fires j s"

definition run :: "event list \<Rightarrow> JobQueue \<Rightarrow> JobQueue" where
  "run evs s = fold step evs s"

subsection \<open>Notions used to state the properties\<close>

definition in_admission :: "phase \<Rightarrow> bool" where
  "in_admission p = (case p of RateWait _ _ \<Rightarrow> True | Ready _ \<Rightarrow> True | _ \<Rightarrow> False)"

text \<open>
  A job is in admission from \<open>queue.shift()\<close> to the call of its task, and running from
  the call of its task to the settlement of its future.
\<close>

definition is_running :: "phase \<Rightarrow> bool" where
  "is_running p = (case p of Running _ _ \<Rightarrow> True | Thrown _ \<Rightarrow> True | _ \<Rightarrow> False)"

definition in_flight :: "phase \<Rightarrow> bool" where
  "in_flight p = (in_admission p \<or> is_running p)"

definition fifo_inv :: "JobQueue \<Rightarrow> bool" where
  "fifo_inv s \<longleftrightarrow>
     map fst (removed s) @ map ident (queue s) = map fst (accepted s) \<and>
     sorted_wrt (<) (map fst (accepted s)) \<and>
     (\<forall>j \<in> set (map fst (accepted s)). j < nextId s)"

definition jobs_inv :: "JobQueue \<Rightarrow> bool" where
  "jobs_inv s \<longleftrightarrow>
     (\<forall>e \<in> set (queue s). ident e < nextId s \<and> phases s (ident e) = Pending) \<and>
     distinct (map ident (queue s)) \<and>
     (\<forall>j. nextId s \<le> j \<longrightarrow> phases s j = Pending) \<and>
     (\<forall>j e now. phases s j = RateWait e now \<longrightarrow> ident e = j) \<and>
     (\<forall>j e. phases s j = Ready e \<longrightarrow> ident e = j)"

definition in_flight_jobs :: "JobQueue \<Rightarrow> nat list" where
  "in_flight_jobs s = filter (\<lambda>j. in_flight (phases s j)) [0..<nextId s]"

definition executing_jobs :: "JobQueue \<Rightarrow> nat list" where
  "executing_jobs s = filter (\<lambda>j. is_running (phases s j)) [0..<nextId s]"

definition active_inv :: "JobQueue \<Rightarrow> bool" where
  "active_inv s \<longleftrightarrow> activeJobs s = int (length (in_flight_jobs s))"

definition deliv_inv :: "JobQueue \<Rightarrow> bool" where
  "deliv_inv s \<longleftrightarrow>
     distinct (map fst (delivered s)) \<and>
     (\<forall>j \<in> fst ` set (delivered s). phases s j = Settled)"

definition timer_inv :: "JobQueue \<Rightarrow> bool" where
  "timer_inv s \<longleftrightarrow>
     (\<forall>j st qt. phases s j = Running st qt \<longrightarrow>
        timers s (TimeoutTimer, j) = Some (st + setTimeout_delay (timeoutLimit s))) \<and>
     (\<forall>j due. timers s (TimeoutTimer, j) = Some due \<longrightarrow>
        (\<exists>st qt. phases s j = Running st qt) \<or> phases s j = Settled)"

fun phase_ok :: "JobQueue \<Rightarrow> nat \<Rightarrow> phase \<Rightarrow> bool" where
  "phase_ok s j Pending \<longleftrightarrow> j \<notin> fst ` set (started s)"
| "phase_ok s j (RateWait e now) \<longleftrightarrow>
     (ident e, queueStartTime e) \<in> set (accepted s) \<and> queueStartTime e \<le> clock s \<and>
     j \<notin> fst ` set (started s)"
| "phase_ok s j (Ready e) \<longleftrightarrow>
     (ident e, queueStartTime e) \<in> set (accepted s) \<and> queueStartTime e \<le> clock s \<and>
     j \<notin> fst ` set (started s)"
| "phase_ok s j (Running st qt) \<longleftrightarrow>
     (j, st) \<in> set (started s) \<and> (j, st - qt) \<in> set (accepted s) \<and> 0 \<le> qt"
| "phase_ok s j (Thrown err) \<longleftrightarrow> True"
| "phase_ok s j Settled \<longleftrightarrow> True"

definition time_inv :: "JobQueue \<Rightarrow> bool" where
  "time_inv s \<longleftrightarrow>
     (\<forall>e \<in> set (queue s).
        (ident e, queueStartTime e) \<in> set (accepted s) \<and> queueStartTime e \<le> clock s) \<and>
     (\<forall>j. phase_ok s j (phases s j)) \<and>
     distinct (map fst (started s)) \<and>
     (\<forall>j r. (j, Resolve r) \<in> set (delivered s) \<longrightarrow>
        (\<exists>st. (j, st) \<in> set (started s) \<and> (j, st - queueTime r) \<in> set (accepted s)) \<and>
        0 \<le> queueTime r)"

fun log_ok :: "JobQueue \<Rightarrow> nat \<Rightarrow> phase \<Rightarrow> bool" where
  "log_ok s j Pending \<longleftrightarrow> j \<notin> fst ` set (removed s) \<and> j \<notin> fst ` set (delivered s)"
| "log_ok s j Settled \<longleftrightarrow> j \<in> fst ` set (delivered s)"
| "log_ok s j p \<longleftrightarrow> j \<in> fst ` set (removed s) \<and> j \<notin> fst ` set (delivered s)"

definition log_inv :: "JobQueue \<Rightarrow> bool" where
  "log_inv s \<longleftrightarrow> (\<forall>j. log_ok s j (phases s j))"

text \<open>
  The number of tasks called in the 60000 ms that end at \<open>t\<close>, and the waiting time a job
  would be given if it were measured from \<open>queue.push\<close> to \<open>queue.shift()\<close>.
\<close>

definition starts_in_window :: "JobQueue \<Rightarrow> int \<Rightarrow> nat" where
  "starts_in_window s t =
     length (filter (\<lambda>(j, st). t - 60000 < st \<and> st \<le> t) (started s))"

definition shift_minus_push :: "JobQueue \<Rightarrow> nat \<Rightarrow> int option" where
  "shift_minus_push s j =
     (case (map_of (removed s) j, map_of (accepted s) j) of
        (Some deq, Some sub) \<Rightarrow> Some (deq - sub)
      | _ \<Rightarrow> None)"

subsection \<open>Queues and executions used as examples\<close>

text \<open>
  \<open>minute_queue\<close> admits one job per minute and has the other limits at their defaults.
  In \<open>three_jobs\<close>, three jobs are submitted at 0 ms, 1 ms and 2 ms. The first starts
  at once; the other two are taken from the queue at once as well, wait in
  \<open>enforceRateLimit\<close> until 60000 ms and start then. In \<open>waiting_job\<close> the second job has
  just been submitted; in \<open>late_start\<close> it has waited and started, and in \<open>after_minute\<close>
  a third job is submitted 2 ms later. In \<open>quick_job\<close> a single job has run for 5 ms.

  In \<open>overtaking\<close> the second job is still waiting at 60000 ms when a third is submitted,
  which starts at once, before the second.

  \<open>serial_queue\<close> runs one job at a time, admits one per minute and gives each 30 s. In
  \<open>one_running_two_queued\<close> a job runs and two more wait in the queue; in
  \<open>second_waits\<close> a job has run and settled, and the next one waits for the minute to end.

  \<open>long_queue\<close> gives each job 2147484 s, which is 2147484000 ms. In \<open>early_timeout\<close> the
  timeout timer of a job fires 1 ms after its start, and its task settles 4 ms later.

  \<open>brief_queue\<close> gives each job 0.2 s. In \<open>returns_and_throws\<close> two jobs are submitted
  together; the task of the first returns a promise, the task of the second throws.
\<close>

definition minute_options :: JobQueueOptions where
  "minute_options =
     \<lparr> opt_concurrencyLimit = None, opt_rateLimit = Some 1, opt_timeoutLimit = None \<rparr>"

definition minute_queue :: JobQueue where
  "minute_queue = projr (new_JobQueue minute_options)"

definition three_jobs :: "event list" where
  "three_jobs =
     [Schedule, JobContinues 0 Returns, Tick 1, Schedule, Tick 1, Schedule, Tick 59998,
      RateTimerFires 1, JobContinues 1 Returns, RateTimerFires 2, JobContinues 2 Returns]"

definition waiting_job :: "event list" where
  "waiting_job = [Schedule, JobContinues 0 Returns, Tick 1, Schedule]"

definition late_start :: "event list" where
  "late_start = waiting_job @ [Tick 59999, RateTimerFires 1, JobContinues 1 Returns]"

definition after_minute :: "event list" where
  "after_minute = late_start @ [Tick 2, Schedule, JobContinues 2 Returns]"

definition quick_job :: "event list" where
  "quick_job = [Schedule, JobContinues 0 Returns, Tick 5]"

definition serial_options :: JobQueueOptions where
  "serial_options =
     \<lparr> opt_concurrencyLimit = Some 1, opt_rateLimit = Some 1, opt_timeoutLimit = Some 30 \<rparr>"

definition serial_queue :: JobQueue where
  "serial_queue = projr (new_JobQueue serial_options)"

definition one_running_two_queued :: "event list" where
  "one_running_two_queued = [Schedule, JobContinues 0 Returns, Tick 3, Schedule, Schedule]"

definition second_waits :: "event list" where
  "second_waits =
     [Schedule, JobContinues 0 Returns, Tick 1, TaskSettles 0 (Fulfilled (JsValue 7)), Schedule]"

definition overtaking :: "event list" where
  "overtaking =
     waiting_job @
     [Tick 59999, Schedule, JobContinues 2 Returns, RateTimerFires 1, JobContinues 1 Returns]"

definition long_options :: JobQueueOptions where
  "long_options =
     \<lparr> opt_concurrencyLimit = None, opt_rateLimit = None, opt_timeoutLimit = Some 2147484 \<rparr>"

definition long_queue :: JobQueue where
  "long_queue = projr (new_JobQueue long_options)"

definition early_timeout :: "event list" where
  "early_timeout =
     [Schedule, JobContinues 0 Returns, Tick 1, TimeoutFires 0, Tick 4,
      TaskSettles 0 (Fulfilled (JsValue 7))]"

definition brief_options :: JobQueueOptions where
  "brief_options =
     \<lparr> opt_concurrencyLimit = None, opt_rateLimit = None, opt_timeoutLimit = Some (2 / 10) \<rparr>"

definition brief_queue :: JobQueue where
  "brief_queue = projr (new_JobQueue brief_options)"

definition returns_and_throws :: "event list" where
  "returns_and_throws =
     [Schedule, Schedule, JobContinues 0 Returns, JobContinues 1 (Throws (Error ''boom'')),
      Tick 5]"

section \<open>Invariants of the event loop\<close>

subsection \<open>Executions\<close>

lemma run_Nil [simp]: "run [] s = s"
  by (simp add: run_def)

lemma run_Cons [simp]: "run (e # evs) s = run evs (step e s)"
  by (simp add: run_def)

lemma run_append [simp]: "run (evs @ evs') s = run evs' (run evs s)"
  by (simp add: run_def)

lemma run_invariant:
  assumes "P s" and "\<And>s e. P s \<Longrightarrow> P (step e s)"
  shows "P (run evs s)"
  using assms(1)
proof (induction evs arbitrary: s)
  case Nil
  then show ?case by simp
next
  case (Cons e evs)
  then show ?case by (simp add: assms(2))
qed

lemma push_now_fields [simp]:
  "queue (push_now e now s) = queue s"
  "nextId (push_now e now s) = nextId s"
  "activeJobs (push_now e now s) = activeJobs s"
  "delivered (push_now e now s) = delivered s"
  "removed (push_now e now s) = removed s"
  "accepted (push_now e now s) = accepted s"
  "started (push_now e now s) = started s"
  "clock (push_now e now s) = clock s"
  "isDisposed (push_now e now s) = isDisposed s"
  "concurrencyLimit (push_now e now s) = concurrencyLimit s"
  "rateLimit (push_now e now s) = rateLimit s"
  "timeoutLimit (push_now e now s) = timeoutLimit s"
  "timers (push_now e now s) = timers s"
  "phases (push_now e now s) = (phases s)(ident e := Ready e)"
  "jobStartTimes (push_now e now s) = jobStartTimes s @ [now]"
  "appended (push_now e now s) = appended s @ [(ident e, now)]"
  by (simp_all add: push_now_def)

lemma enforceRateLimit_fields [simp]:
  "queue (enforceRateLimit e s) = queue s"
  "nextId (enforceRateLimit e s) = nextId s"
  "activeJobs (enforceRateLimit e s) = activeJobs s"
  "delivered (enforceRateLimit e s) = delivered s"
  "removed (enforceRateLimit e s) = removed s"
  "accepted (enforceRateLimit e s) = accepted s"
  "started (enforceRateLimit e s) = started s"
  "clock (enforceRateLimit e s) = clock s"
  "isDisposed (enforceRateLimit e s) = isDisposed s"
  "concurrencyLimit (enforceRateLimit e s) = concurrencyLimit s"
  "rateLimit (enforceRateLimit e s) = rateLimit s"
  "timeoutLimit (enforceRateLimit e s) = timeoutLimit s"
  by (simp_all add: enforceRateLimit_def Let_def split: option.splits list.splits)

lemma enforceRateLimit_phases:
  "phases (enforceRateLimit e s) = (phases s)(ident e := Ready e) \<or>
   phases (enforceRateLimit e s) = (phases s)(ident e := RateWait e (clock s))"
  by (simp add: enforceRateLimit_def Let_def split: option.splits list.splits)

lemma enforceRateLimit_phase_cases:
  obtains "phases (enforceRateLimit e s) = (phases s)(ident e := Ready e)"
  | "phases (enforceRateLimit e s) = (phases s)(ident e := RateWait e (clock s))"
  using enforceRateLimit_phases by blast

lemma enforceRateLimit_timers:
  "k \<noteq> (RateTimer, ident e) \<Longrightarrow> timers (enforceRateLimit e s) k = timers s k"
  by (simp add: enforceRateLimit_def Let_def split: option.splits list.splits)

lemma processNextJob_cases:
  obtains (idle) "queue s = [] \<or> concurrencyLimit s \<le> activeJobs s" "processNextJob s = s"
  | (dispatch) "next" rest where "queue s = next # rest" "activeJobs s < concurrencyLimit s"
      "processNextJob s = enforceRateLimit next
         (s\<lparr> queue := rest, removed := removed s @ [(ident next, clock s)],
             activeJobs := activeJobs s + 1 \<rparr>)"
  by (cases "queue s"; cases "activeJobs s < concurrencyLimit s") (auto simp: processNextJob_def)

subsection \<open>What a call of the task changes\<close>

lemma executeJob_fields [simp]:
  "queue (executeJob j c s) = queue s"
  "nextId (executeJob j c s) = nextId s"
  "activeJobs (executeJob j c s) = activeJobs s"
  "delivered (executeJob j c s) = delivered s"
  "removed (executeJob j c s) = removed s"
  "accepted (executeJob j c s) = accepted s"
  "clock (executeJob j c s) = clock s"
  "isDisposed (executeJob j c s) = isDisposed s"
  "jobStartTimes (executeJob j c s) = jobStartTimes s"
  "appended (executeJob j c s) = appended s"
  "concurrencyLimit (executeJob j c s) = concurrencyLimit s"
  "rateLimit (executeJob j c s) = rateLimit s"
  "timeoutLimit (executeJob j c s) = timeoutLimit s"
  by (simp_all add: executeJob_def Let_def split: phase.splits call.splits)

lemma executeJob_cases:
  obtains (skip) "executeJob j c s = s"
  | (called) e p where "phases s j = Ready e"
      "p = Running (clock s) (clock s - queueStartTime e) \<or> (\<exists>err. p = Thrown err)"
      "phases (executeJob j c s) = (phases s)(j := p)"
      "started (executeJob j c s) = started s @ [(j, clock s)]"
      "\<And>k. k \<noteq> j \<Longrightarrow> timers (executeJob j c s) (TimeoutTimer, k) = timers s (TimeoutTimer, k)"
proof (cases "phases s j")
  case (Ready e)
  show ?thesis
  proof (cases c)
    case Returns
    with Ready show ?thesis
      by (intro that(2) [of e "Running (clock s) (clock s - queueStartTime e)"])
         (simp_all add: executeJob_def Let_def)
  next
    case (Throws err)
    with Ready show ?thesis
      by (intro that(2) [of e "Thrown err"]) (simp_all add: executeJob_def Let_def)
  qed
qed (simp_all add: that(1) executeJob_def)

lemma executeJob_catch_cases:
  obtains (skip) "executeJob_catch j s = s"
  | (caught) err where "phases s j = Thrown err"
      "executeJob_catch j s = executeJob_settle j (Reject err) s"
  by (cases "phases s j") (simp_all add: executeJob_catch_def)

subsection \<open>Configuration and disposal flag\<close>

lemma processNextJob_config [simp]:
  "concurrencyLimit (processNextJob s) = concurrencyLimit s"
  "rateLimit (processNextJob s) = rateLimit s"
  "timeoutLimit (processNextJob s) = timeoutLimit s"
  "isDisposed (processNextJob s) = isDisposed s"
  "nextId (processNextJob s) = nextId s"
  "delivered (processNextJob s) = delivered s"
  "accepted (processNextJob s) = accepted s"
  "started (processNextJob s) = started s"
  "clock (processNextJob s) = clock s"
  by (cases s rule: processNextJob_cases; simp)+

lemma dispose_loop_config [simp]:
  "concurrencyLimit (dispose_loop s) = concurrencyLimit s"
  "rateLimit (dispose_loop s) = rateLimit s"
  "timeoutLimit (dispose_loop s) = timeoutLimit s"
  "isDisposed (dispose_loop s) = isDisposed s"
  "nextId (dispose_loop s) = nextId s"
  "activeJobs (dispose_loop s) = activeJobs s"
  "accepted (dispose_loop s) = accepted s"
  "started (dispose_loop s) = started s"
  "clock (dispose_loop s) = clock s"
  "timers (dispose_loop s) = timers s"
  "jobStartTimes (dispose_loop s) = jobStartTimes s"
  "appended (dispose_loop s) = appended s"
  by (induction s rule: dispose_loop.induct;
      subst dispose_loop.simps; simp split: list.splits)+

lemma dispose_loop_queue [simp]: "queue (dispose_loop s) = []"
  by (induction s rule: dispose_loop.induct)
     (subst dispose_loop.simps, simp split: list.splits)

lemma step_config [simp]:
  "concurrencyLimit (step e s) = concurrencyLimit s"
  "rateLimit (step e s) = rateLimit s"
  "timeoutLimit (step e s) = timeoutLimit s"
  by (cases e;
      simp add: schedule_def dispose_def enforceRateLimit_resume_def executeJob_def
        executeJob_catch_def task_settles_def timeout_fires_def executeJob_settle_def Let_def
        split: option.splits phase.splits outcome.splits call.splits)+

lemma run_config [simp]:
  "concurrencyLimit (run evs s) = concurrencyLimit s"
  "rateLimit (run evs s) = rateLimit s"
  "timeoutLimit (run evs s) = timeoutLimit s"
  by (induction evs arbitrary: s; simp)+

lemma step_isDisposed: "isDisposed s \<Longrightarrow> isDisposed (step e s)"
  by (cases e;
      simp add: schedule_def dispose_def enforceRateLimit_resume_def executeJob_def
        executeJob_catch_def task_settles_def timeout_fires_def executeJob_settle_def Let_def
        split: option.splits phase.splits outcome.splits call.splits)

lemma run_isDisposed: "isDisposed s \<Longrightarrow> isDisposed (run evs s)"
  by (induction evs arbitrary: s) (simp_all add: step_isDisposed)


subsection \<open>First in, first out\<close>

lemma fifo_processNextJob: "fifo_inv s \<Longrightarrow> fifo_inv (processNextJob s)"
  by (cases s rule: processNextJob_cases) (auto simp: fifo_inv_def)

lemma fifo_dispose_loop: "fifo_inv s \<Longrightarrow> fifo_inv (dispose_loop s)"
proof (induction s rule: dispose_loop.induct)
  case (1 s)
  show ?case
  proof (cases "queue s")
    case Nil
    with "1.prems" show ?thesis by (subst dispose_loop.simps) simp
  next
    case (Cons job rest)
    let ?s' = "s\<lparr> queue := rest,
                  removed := removed s @ [(ident job, clock s)],
                  phases := (phases s)(ident job := Settled),
                  delivered := delivered s @
                    [(ident job, Reject (Error ''Queue has been disposed''))] \<rparr>"
    from "1.prems" Cons have "fifo_inv ?s'" by (auto simp: fifo_inv_def)
    with "1.IH" [of job rest] Cons have "fifo_inv (dispose_loop ?s')" by simp
    with Cons show ?thesis by (subst dispose_loop.simps) simp
  qed
qed

lemma fifo_schedule: "fifo_inv s \<Longrightarrow> fifo_inv (schedule s)"
proof -
  assume a: "fifo_inv s"
  show ?thesis
  proof (cases "isDisposed s")
    case True
    with a show ?thesis by (auto simp: schedule_def fifo_inv_def Let_def)
  next
    case False
    let ?s' = "s\<lparr> nextId := nextId s + 1,
        queue := queue s @ [\<lparr> ident = nextId s, queueStartTime = clock s \<rparr>],
        accepted := accepted s @ [(nextId s, clock s)] \<rparr>"
    from a have "map fst (removed ?s') @ map ident (queue ?s') = map fst (accepted ?s')"
      by (simp add: fifo_inv_def)
    moreover from a have "sorted_wrt (<) (map fst (accepted ?s'))"
      by (auto simp: fifo_inv_def sorted_wrt_append)
    moreover from a have "\<forall>j \<in> set (map fst (accepted ?s')). j < nextId ?s'"
      by (auto simp: fifo_inv_def)
    ultimately have "fifo_inv ?s'" unfolding fifo_inv_def by blast
    then have "fifo_inv (processNextJob ?s')" by (rule fifo_processNextJob)
    with False show ?thesis by (simp add: schedule_def Let_def)
  qed
qed

lemma fifo_settle: "fifo_inv s \<Longrightarrow> fifo_inv (executeJob_settle j out s)"
  unfolding executeJob_settle_def
  by (rule fifo_processNextJob) (simp add: fifo_inv_def)

lemma fifo_step: "fifo_inv s \<Longrightarrow> fifo_inv (step e s)"
proof (cases e)
  case Schedule then show "fifo_inv s \<Longrightarrow> ?thesis" by (simp add: fifo_schedule)
next
  case Dispose
  assume "fifo_inv s"
  then have "fifo_inv (s\<lparr> isDisposed := True \<rparr>)" by (simp add: fifo_inv_def)
  with Dispose show ?thesis by (simp add: dispose_def fifo_dispose_loop)
next
  case (TaskSettles j out)
  assume "fifo_inv s"
  with TaskSettles show ?thesis
    by (simp add: task_settles_def fifo_settle split: phase.splits outcome.splits)
next
  case (TimeoutFires j)
  assume a: "fifo_inv s"
  then have "fifo_inv (s\<lparr> timers := (timers s)((TimeoutTimer, j) := None) \<rparr>)"
    by (simp add: fifo_inv_def)
  with a TimeoutFires show ?thesis
    by (simp add: timeout_fires_def fifo_settle Let_def split: option.splits phase.splits)
next
  case (CatchRuns j)
  assume "fifo_inv s"
  with CatchRuns show ?thesis
    by (simp add: executeJob_catch_def fifo_settle split: phase.splits)
qed (auto simp: fifo_inv_def enforceRateLimit_resume_def executeJob_def Let_def
       split: option.splits phase.splits call.splits)

lemma new_JobQueue_fields:
  assumes "new_JobQueue options = Inr s"
  shows "activeJobs s = 0" "queue s = []" "\<not> isDisposed s" "jobStartTimes s = []"
    "clock s = 0" "phases s = (\<lambda>_. Pending)" "timers s = Map.empty" "nextId s = 0"
    "accepted s = []" "removed s = []" "started s = []" "appended s = []"
    "delivered s = []" "0 < concurrencyLimit s" "0 < timeoutLimit s"
    "rateLimit s = opt_rateLimit options"
  using assms by (auto simp: new_JobQueue_def split: if_splits option.splits)

lemma new_JobQueue_rateLimit:
  assumes "new_JobQueue options = Inr s" "rateLimit s = Some r"
  shows "0 < r"
  using assms by (auto simp: new_JobQueue_def split: if_splits option.splits)

lemma fifo_run:
  assumes "new_JobQueue options = Inr s0"
  shows "fifo_inv (run evs s0)"
proof (rule run_invariant)
  show "fifo_inv s0" using new_JobQueue_fields [OF assms] by (simp add: fifo_inv_def)
qed (rule fifo_step)

subsection \<open>Jobs and their phases\<close>

lemma jobs_inv_cong:
  "queue s' = queue s \<Longrightarrow> nextId s' = nextId s \<Longrightarrow> phases s' = phases s \<Longrightarrow>
   jobs_inv s' = jobs_inv s"
  by (simp add: jobs_inv_def)

lemma jobs_inv_known: "jobs_inv s \<Longrightarrow> phases s j \<noteq> Pending \<Longrightarrow> j < nextId s"
  unfolding jobs_inv_def by (meson not_le)

lemma jobs_inv_not_queued:
  "jobs_inv s \<Longrightarrow> phases s j \<noteq> Pending \<Longrightarrow> j \<notin> ident ` set (queue s)"
  unfolding jobs_inv_def by auto

text \<open>A job that has left the queue moves on to a later phase.\<close>

lemma jobs_inv_move:
  assumes "jobs_inv s" "phases s j \<noteq> Pending" "p \<noteq> Pending"
    "\<And>e now. p = RateWait e now \<Longrightarrow> ident e = j" "\<And>e. p = Ready e \<Longrightarrow> ident e = j"
    "queue s' = queue s" "nextId s' = nextId s" "phases s' = (phases s)(j := p)"
  shows "jobs_inv s'"
proof -
  have "j < nextId s" using assms(1,2) by (rule jobs_inv_known)
  moreover have "j \<notin> ident ` set (queue s)" using assms(1,2) by (rule jobs_inv_not_queued)
  ultimately show ?thesis
    using assms unfolding jobs_inv_def by (auto simp: image_iff)
qed

text \<open>The front entry leaves the queue.\<close>

lemma jobs_inv_shift:
  assumes "jobs_inv s" "queue s = next # rest" "p \<noteq> Pending"
    "\<And>e now. p = RateWait e now \<Longrightarrow> e = next" "\<And>e. p = Ready e \<Longrightarrow> e = next"
    "queue s' = rest" "nextId s' = nextId s" "phases s' = (phases s)(ident next := p)"
  shows "jobs_inv s'"
  using assms unfolding jobs_inv_def by (auto simp: image_iff)

lemma jobs_processNextJob: "jobs_inv s \<Longrightarrow> jobs_inv (processNextJob s)"
proof (cases s rule: processNextJob_cases)
  case idle
  assume "jobs_inv s" with idle show ?thesis by simp
next
  case (dispatch "next" rest)
  assume a: "jobs_inv s"
  let ?s1 = "s\<lparr> queue := rest, removed := removed s @ [(ident next, clock s)],
                activeJobs := activeJobs s + 1 \<rparr>"
  from enforceRateLimit_phases [of "next" ?s1]
  show ?thesis
  proof
    assume p: "phases (enforceRateLimit next ?s1) = (phases ?s1)(ident next := Ready next)"
    show ?thesis
      by (rule jobs_inv_shift [of s "next" rest "Ready next"]) (use a dispatch p in simp_all)
  next
    assume p: "phases (enforceRateLimit next ?s1) =
      (phases ?s1)(ident next := RateWait next (clock ?s1))"
    show ?thesis
      by (rule jobs_inv_shift [of s "next" rest "RateWait next (clock s)"])
         (use a dispatch p in simp_all)
  qed
qed

lemma jobs_dispose_loop: "jobs_inv s \<Longrightarrow> jobs_inv (dispose_loop s)"
proof (induction s rule: dispose_loop.induct)
  case (1 s)
  show ?case
  proof (cases "queue s")
    case Nil
    with "1.prems" show ?thesis by (subst dispose_loop.simps) simp
  next
    case (Cons job rest)
    let ?s' = "s\<lparr> queue := rest,
                  removed := removed s @ [(ident job, clock s)],
                  phases := (phases s)(ident job := Settled),
                  delivered := delivered s @
                    [(ident job, Reject (Error ''Queue has been disposed''))] \<rparr>"
    have "jobs_inv ?s'"
      by (rule jobs_inv_shift [of s job rest Settled]) (use "1.prems" Cons in simp_all)
    with "1.IH" [of job rest] Cons have "jobs_inv (dispose_loop ?s')" by simp
    with Cons show ?thesis by (subst dispose_loop.simps) simp
  qed
qed

lemma jobs_schedule: "jobs_inv s \<Longrightarrow> jobs_inv (schedule s)"
proof -
  assume a: "jobs_inv s"
  show ?thesis
  proof (cases "isDisposed s")
    case True
    with a show ?thesis
      by (auto simp: schedule_def jobs_inv_def Let_def)
  next
    case False
    let ?s' = "s\<lparr> nextId := nextId s + 1,
        queue := queue s @ [\<lparr> ident = nextId s, queueStartTime = clock s \<rparr>],
        accepted := accepted s @ [(nextId s, clock s)] \<rparr>"
    from a have "jobs_inv ?s'"
      unfolding jobs_inv_def by (auto simp: less_Suc_eq)
    then have "jobs_inv (processNextJob ?s')" by (rule jobs_processNextJob)
    with False show ?thesis by (simp add: schedule_def Let_def)
  qed
qed

lemma jobs_settle:
  assumes "jobs_inv s" "phases s j \<noteq> Pending"
  shows "jobs_inv (executeJob_settle j out s)"
  unfolding executeJob_settle_def
  by (rule jobs_processNextJob, rule jobs_inv_move [OF assms, of Settled]) simp_all

lemma jobs_step: "jobs_inv s \<Longrightarrow> jobs_inv (step e s)"
proof (cases e)
  case (Tick d)
  assume "jobs_inv s" with Tick show ?thesis by (simp add: jobs_inv_def)
next
  case Schedule then show "jobs_inv s \<Longrightarrow> ?thesis" by (simp add: jobs_schedule)
next
  case Dispose
  assume "jobs_inv s"
  then have "jobs_inv (s\<lparr> isDisposed := True \<rparr>)" by (simp add: jobs_inv_def)
  with Dispose show ?thesis by (simp add: dispose_def jobs_dispose_loop)
next
  case (RateTimerFires j)
  assume a: "jobs_inv s"
  show ?thesis
  proof (cases "phases s j")
    case (RateWait e now)
    with a have e: "ident e = j" by (auto simp: jobs_inv_def)
    have "jobs_inv (push_now e now (s\<lparr> timers := (timers s)((RateTimer, j) := None) \<rparr>))"
      by (rule jobs_inv_move [of s j "Ready e"]) (use a RateWait e in simp_all)
    with a RateWait RateTimerFires show ?thesis
      by (simp add: enforceRateLimit_resume_def Let_def split: option.splits)
  qed (use a RateTimerFires in
        \<open>auto simp: enforceRateLimit_resume_def Let_def jobs_inv_def split: option.splits\<close>)
next
  case (JobContinues j c)
  assume a: "jobs_inv s"
  show ?thesis
  proof (cases j c s rule: executeJob_cases)
    case skip
    with a JobContinues show ?thesis by simp
  next
    case (called e p)
    have "jobs_inv (executeJob j c s)"
      by (rule jobs_inv_move [OF a, of j p]) (use called in auto)
    with JobContinues show ?thesis by simp
  qed
next
  case (CatchRuns j)
  assume "jobs_inv s"
  with CatchRuns show ?thesis
    by (auto simp: executeJob_catch_def jobs_settle split: phase.splits)
next
  case (TaskSettles j out)
  assume "jobs_inv s"
  with TaskSettles show ?thesis
    by (auto simp: task_settles_def jobs_settle split: phase.splits outcome.splits)
next
  case (TimeoutFires j)
  assume a: "jobs_inv s"
  then have b: "jobs_inv (s\<lparr> timers := (timers s)((TimeoutTimer, j) := None) \<rparr>)"
    by (simp add: jobs_inv_def)
  show ?thesis
  proof (cases "phases s j")
    case (Running st qt)
    have "jobs_inv (executeJob_settle j (Reject (Error ''Job timed out''))
        (s\<lparr> timers := (timers s)((TimeoutTimer, j) := None) \<rparr>))"
      by (rule jobs_settle) (use b Running in simp_all)
    with a Running TimeoutFires show ?thesis
      by (simp add: timeout_fires_def Let_def split: option.splits)
  qed (use a b TimeoutFires in
        \<open>auto simp: timeout_fires_def Let_def split: option.splits\<close>)
qed

lemma jobs_run:
  assumes "new_JobQueue options = Inr s0"
  shows "jobs_inv (run evs s0)"
proof (rule run_invariant)
  show "jobs_inv s0" using new_JobQueue_fields [OF assms] by (simp add: jobs_inv_def)
qed (rule jobs_step)

subsection \<open>The counter of active jobs\<close>

lemma count_upd_above:
  "n \<le> j \<Longrightarrow> filter (\<lambda>i. P ((f(j := p)) i)) [0..<n] = filter (\<lambda>i. P (f i)) [0..<n]"
  by (rule filter_cong) auto

lemma count_upd:
  "j < n \<Longrightarrow>
   int (length (filter (\<lambda>i. P ((f(j := p)) i)) [0..<n])) =
   int (length (filter (\<lambda>i. P (f i)) [0..<n])) - (if P (f j) then 1 else 0)
     + (if P p then 1 else 0)"
proof (induction n)
  case 0
  then show ?case by simp
next
  case (Suc n)
  show ?case
  proof (cases "j = n")
    case True
    have "filter (\<lambda>i. P ((f(j := p)) i)) [0..<n] = filter (\<lambda>i. P (f i)) [0..<n]"
      by (rule count_upd_above) (simp add: True)
    with True show ?thesis by (simp del: fun_upd_apply add: fun_upd_same)
  next
    case False
    with Suc.prems have "j < n" by simp
    from Suc.IH [OF this] False show ?thesis by simp
  qed
qed

lemma active_inv_upd:
  assumes "active_inv s" "j < nextId s" "nextId s' = nextId s"
    "phases s' = (phases s)(j := p)"
    "activeJobs s' = activeJobs s - (if in_flight (phases s j) then 1 else 0)
       + (if in_flight p then 1 else 0)"
  shows "active_inv s'"
  using assms count_upd [of j "nextId s" in_flight "phases s" p]
  by (simp add: active_inv_def in_flight_jobs_def)

lemma active_inv_same:
  "active_inv s \<Longrightarrow> nextId s' = nextId s \<Longrightarrow> phases s' = phases s \<Longrightarrow>
   activeJobs s' = activeJobs s \<Longrightarrow> active_inv s'"
  by (simp add: active_inv_def in_flight_jobs_def)

lemma active_inv_new:
  assumes "active_inv s" "jobs_inv s" "nextId s' = Suc (nextId s)"
    "phases s' = (phases s)(nextId s := p)" "\<not> in_flight p"
    "activeJobs s' = activeJobs s"
  shows "active_inv s'"
proof -
  have "filter (\<lambda>i. in_flight (((phases s)(nextId s := p)) i)) [0..<nextId s] =
      filter (\<lambda>i. in_flight (phases s i)) [0..<nextId s]"
    by (rule count_upd_above) simp
  with assms show ?thesis
    by (simp add: active_inv_def in_flight_jobs_def fun_upd_same del: fun_upd_apply)
qed

lemma in_flight_simps [simp]:
  "\<not> in_flight Pending" "in_flight (RateWait e now)" "in_flight (Ready e)"
  "in_flight (Running st qt)" "in_flight (Thrown err)" "\<not> in_flight Settled"
  by (simp_all add: in_flight_def in_admission_def is_running_def)

lemma active_processNextJob:
  assumes "jobs_inv s" "active_inv s"
  shows "active_inv (processNextJob s)"
proof (cases s rule: processNextJob_cases)
  case idle
  with assms show ?thesis by simp
next
  case (dispatch "next" rest)
  let ?s1 = "s\<lparr> queue := rest, removed := removed s @ [(ident next, clock s)],
                activeJobs := activeJobs s + 1 \<rparr>"
  from assms(1) dispatch(1) have n: "ident next < nextId s" "phases s (ident next) = Pending"
    by (auto simp: jobs_inv_def)
  obtain p where p: "in_flight p"
    "phases (enforceRateLimit next ?s1) = (phases s)(ident next := p)"
  proof (rule enforceRateLimit_phase_cases [of "next" ?s1])
    assume "phases (enforceRateLimit next ?s1) = (phases ?s1)(ident next := Ready next)"
    then show ?thesis using that [of "Ready next"] by simp
  next
    assume "phases (enforceRateLimit next ?s1) =
      (phases ?s1)(ident next := RateWait next (clock ?s1))"
    then show ?thesis using that [of "RateWait next (clock s)"] by simp
  qed
  have "active_inv (enforceRateLimit next ?s1)"
    by (rule active_inv_upd [of s "ident next" _ p]) (use assms n p in simp_all)
  with dispatch show ?thesis by simp
qed

lemma dispose_loop_phases:
  "phases (dispose_loop s) j =
     (if j \<in> ident ` set (queue s) then Settled else phases s j)"
proof (induction s rule: dispose_loop.induct)
  case (1 s)
  show ?case
  proof (cases "queue s")
    case Nil
    then show ?thesis by (subst dispose_loop.simps) simp
  next
    case (Cons job rest)
    with "1.IH" [of job rest] show ?thesis
      by (subst dispose_loop.simps) auto
  qed
qed

lemma active_dispose_loop:
  assumes "jobs_inv s" "active_inv s"
  shows "active_inv (dispose_loop s)"
proof -
  have "in_flight (phases (dispose_loop s) j) = in_flight (phases s j)" for j
    using assms(1) by (auto simp: dispose_loop_phases jobs_inv_def)
  with assms(2) show ?thesis
    by (simp add: active_inv_def in_flight_jobs_def)
qed

lemma active_schedule:
  assumes "jobs_inv s" "active_inv s"
  shows "active_inv (schedule s)"
proof (cases "isDisposed s")
  case True
  have "active_inv (s\<lparr> nextId := nextId s + 1, phases := (phases s)(nextId s := Settled),
      delivered := delivered s @ [(nextId s, Reject (Error ''Queue has been disposed''))] \<rparr>)"
    by (rule active_inv_new [of s _ Settled]) (use assms in simp_all)
  with True show ?thesis by (simp add: schedule_def Let_def)
next
  case False
  let ?s' = "s\<lparr> nextId := nextId s + 1,
      queue := queue s @ [\<lparr> ident = nextId s, queueStartTime = clock s \<rparr>],
      accepted := accepted s @ [(nextId s, clock s)] \<rparr>"
  from assms(1) have "phases s (nextId s) = Pending" by (simp add: jobs_inv_def)
  then have "(phases s)(nextId s := Pending) = phases s" by (simp only: fun_upd_idem)
  then have p: "phases ?s' = (phases s)(nextId s := Pending)" by simp
  have 1: "active_inv ?s'"
    by (rule active_inv_new [of s ?s' Pending]) (use assms p in simp_all)
  from assms(1) have 2: "jobs_inv ?s'"
    unfolding jobs_inv_def by (auto simp: less_Suc_eq)
  from 2 1 have "active_inv (processNextJob ?s')" by (rule active_processNextJob)
  with False show ?thesis by (simp add: schedule_def Let_def)
qed

lemma active_settle:
  assumes "jobs_inv s" "active_inv s" "in_flight (phases s j)"
  shows "active_inv (executeJob_settle j out s)"
proof -
  let ?s' = "s\<lparr> phases := (phases s)(j := Settled),
           delivered := delivered s @ [(j, out)],
           activeJobs := activeJobs s - 1 \<rparr>"
  from assms(3) have np: "phases s j \<noteq> Pending" by auto
  with assms(1) have lt: "j < nextId s" by (rule jobs_inv_known)
  have "jobs_inv ?s'"
    by (rule jobs_inv_move [of s j Settled]) (use assms np in simp_all)
  moreover have "active_inv ?s'"
    by (rule active_inv_upd [of s j _ Settled]) (use assms lt in simp_all)
  ultimately show ?thesis
    unfolding executeJob_settle_def by (rule active_processNextJob)
qed

lemma active_step:
  assumes "jobs_inv s" "active_inv s"
  shows "active_inv (step e s)"
proof (cases e)
  case (Tick d)
  show ?thesis by (rule active_inv_same [OF assms(2)]) (simp_all add: Tick)
next
  case Schedule with assms show ?thesis by (simp add: active_schedule)
next
  case Dispose
  from assms have "jobs_inv (s\<lparr> isDisposed := True \<rparr>)" "active_inv (s\<lparr> isDisposed := True \<rparr>)"
    by (simp_all add: jobs_inv_def active_inv_def in_flight_jobs_def)
  with Dispose show ?thesis by (simp add: dispose_def active_dispose_loop)
next
  case (RateTimerFires j)
  have t: "active_inv (s\<lparr> timers := x \<rparr>)" for x
    by (rule active_inv_same [OF assms(2)]) simp_all
  show ?thesis
  proof (cases "phases s j")
    case (RateWait e now)
    with assms have e: "ident e = j" "j < nextId s"
      using jobs_inv_known [of s j] by (auto simp: jobs_inv_def)
    have "active_inv (push_now e now (s\<lparr> timers := (timers s)((RateTimer, j) := None) \<rparr>))"
      by (rule active_inv_upd [of s j _ "Ready e"]) (use assms RateWait e in simp_all)
    with assms RateWait RateTimerFires show ?thesis
      by (simp add: enforceRateLimit_resume_def Let_def split: option.splits)
  qed (use assms t RateTimerFires in
        \<open>auto simp: enforceRateLimit_resume_def Let_def split: option.splits\<close>)
next
  case (JobContinues j c)
  show ?thesis
  proof (cases j c s rule: executeJob_cases)
    case skip
    with assms JobContinues show ?thesis by simp
  next
    case (called e p)
    have "active_inv (executeJob j c s)"
      by (rule active_inv_upd [of s j _ p])
         (use assms called jobs_inv_known [of s j] in auto)
    with JobContinues show ?thesis by simp
  qed
next
  case (CatchRuns j)
  with assms show ?thesis
    by (auto simp: executeJob_catch_def active_settle split: phase.splits)
next
  case (TaskSettles j out)
  with assms show ?thesis
    by (auto simp: task_settles_def active_settle split: phase.splits outcome.splits)
next
  case (TimeoutFires j)
  let ?s1 = "s\<lparr> timers := (timers s)((TimeoutTimer, j) := None) \<rparr>"
  from assms have b: "jobs_inv ?s1" "active_inv ?s1"
    by (simp_all add: jobs_inv_def active_inv_def in_flight_jobs_def)
  show ?thesis
  proof (cases "phases s j")
    case (Running st qt)
    have "active_inv (executeJob_settle j (Reject (Error ''Job timed out'')) ?s1)"
      by (rule active_settle) (use b Running in simp_all)
    with assms Running TimeoutFires show ?thesis
      by (simp add: timeout_fires_def Let_def split: option.splits)
  qed (use assms b TimeoutFires in
        \<open>auto simp: timeout_fires_def Let_def split: option.splits\<close>)
qed

lemma active_run:
  assumes "new_JobQueue options = Inr s0"
  shows "jobs_inv (run evs s0) \<and> active_inv (run evs s0)"
proof (rule run_invariant [where P = "\<lambda>s. jobs_inv s \<and> active_inv s"])
  show "jobs_inv s0 \<and> active_inv s0"
    using new_JobQueue_fields [OF assms]
    by (simp add: jobs_inv_def active_inv_def in_flight_jobs_def)
qed (simp add: jobs_step active_step)

subsection \<open>The concurrency limit\<close>

lemma executeJob_settle_fields [simp]:
  "concurrencyLimit (executeJob_settle j out s) = concurrencyLimit s"
  "rateLimit (executeJob_settle j out s) = rateLimit s"
  "timeoutLimit (executeJob_settle j out s) = timeoutLimit s"
  "isDisposed (executeJob_settle j out s) = isDisposed s"
  "nextId (executeJob_settle j out s) = nextId s"
  "delivered (executeJob_settle j out s) = delivered s @ [(j, out)]"
  "accepted (executeJob_settle j out s) = accepted s"
  "started (executeJob_settle j out s) = started s"
  "clock (executeJob_settle j out s) = clock s"
  by (simp_all add: executeJob_settle_def)

lemma bound_processNextJob:
  "activeJobs s \<le> concurrencyLimit s \<Longrightarrow>
   activeJobs (processNextJob s) \<le> concurrencyLimit (processNextJob s)"
  by (cases s rule: processNextJob_cases) auto

lemma bound_step:
  "activeJobs s \<le> concurrencyLimit s \<Longrightarrow> activeJobs (step e s) \<le> concurrencyLimit (step e s)"
proof (cases e)
  case (TaskSettles j out)
  assume a: "activeJobs s \<le> concurrencyLimit s"
  have "activeJobs (executeJob_settle j x s) \<le> concurrencyLimit s" for x
    unfolding executeJob_settle_def
    using bound_processNextJob [of "s\<lparr> phases := (phases s)(j := Settled),
           delivered := delivered s @ [(j, x)], activeJobs := activeJobs s - 1 \<rparr>"] a
    by simp
  with a TaskSettles show ?thesis
    by (simp add: task_settles_def split: phase.splits outcome.splits)
next
  case (TimeoutFires j)
  assume a: "activeJobs s \<le> concurrencyLimit s"
  let ?s1 = "s\<lparr> timers := (timers s)((TimeoutTimer, j) := None) \<rparr>"
  have "activeJobs (executeJob_settle j x ?s1) \<le> concurrencyLimit s" for x
    unfolding executeJob_settle_def
    using bound_processNextJob [of "?s1\<lparr> phases := (phases ?s1)(j := Settled),
           delivered := delivered ?s1 @ [(j, x)], activeJobs := activeJobs ?s1 - 1 \<rparr>"] a
    by simp
  with a TimeoutFires show ?thesis
    by (simp add: timeout_fires_def Let_def split: option.splits phase.splits)
next
  case Schedule
  assume a: "activeJobs s \<le> concurrencyLimit s"
  let ?s' = "s\<lparr> nextId := nextId s + 1,
      queue := queue s @ [\<lparr> ident = nextId s, queueStartTime = clock s \<rparr>],
      accepted := accepted s @ [(nextId s, clock s)] \<rparr>"
  from a bound_processNextJob [of ?s'] have "activeJobs (processNextJob ?s') \<le> concurrencyLimit s"
    by simp
  with a Schedule show ?thesis by (simp add: schedule_def Let_def)
next
  case (CatchRuns j)
  assume a: "activeJobs s \<le> concurrencyLimit s"
  have "activeJobs (executeJob_settle j x s) \<le> concurrencyLimit s" for x
    unfolding executeJob_settle_def
    using bound_processNextJob [of "s\<lparr> phases := (phases s)(j := Settled),
           delivered := delivered s @ [(j, x)], activeJobs := activeJobs s - 1 \<rparr>"] a
    by simp
  with a CatchRuns show ?thesis
    by (simp add: executeJob_catch_def split: phase.splits)
qed (auto simp: dispose_def enforceRateLimit_resume_def Let_def
       split: option.splits phase.splits)

lemma bound_run:
  assumes "new_JobQueue options = Inr s0"
  shows "activeJobs (run evs s0) \<le> concurrencyLimit (run evs s0)"
proof (rule run_invariant [where P = "\<lambda>s. activeJobs s \<le> concurrencyLimit s"])
  show "activeJobs s0 \<le> concurrencyLimit s0"
    using new_JobQueue_fields [OF assms] by simp
qed (rule bound_step)

subsection \<open>What a dispatch changes\<close>

lemma processNextJob_effect:
  obtains (idle) "queue s = [] \<or> concurrencyLimit s \<le> activeJobs s" "processNextJob s = s"
  | (dispatch) "next" rest p where "queue s = next # rest" "activeJobs s < concurrencyLimit s"
      "p = Ready next \<or> p = RateWait next (clock s)"
      "phases (processNextJob s) = (phases s)(ident next := p)"
      "queue (processNextJob s) = rest"
      "removed (processNextJob s) = removed s @ [(ident next, clock s)]"
      "activeJobs (processNextJob s) = activeJobs s + 1"
      "\<And>k. k \<noteq> (RateTimer, ident next) \<Longrightarrow> timers (processNextJob s) k = timers s k"
proof (cases s rule: processNextJob_cases)
  case idle
  then show ?thesis by (rule that(1))
next
  case (dispatch "next" rest)
  let ?s1 = "s\<lparr> queue := rest, removed := removed s @ [(ident next, clock s)],
                activeJobs := activeJobs s + 1 \<rparr>"
  show ?thesis
  proof (rule enforceRateLimit_phase_cases [of "next" ?s1])
    assume "phases (enforceRateLimit next ?s1) = (phases ?s1)(ident next := Ready next)"
    with dispatch show ?thesis
      by (intro that(2) [of "next" rest "Ready next"])
         (simp_all add: enforceRateLimit_timers)
  next
    assume "phases (enforceRateLimit next ?s1) =
      (phases ?s1)(ident next := RateWait next (clock ?s1))"
    with dispatch show ?thesis
      by (intro that(2) [of "next" rest "RateWait next (clock s)"])
         (simp_all add: enforceRateLimit_timers)
  qed
qed

lemma processNextJob_timeout_timers [simp]:
  "timers (processNextJob s) (TimeoutTimer, j) = timers s (TimeoutTimer, j)"
  by (cases s rule: processNextJob_effect) simp_all

subsection \<open>One settlement for each future\<close>

lemma deliv_keep:
  assumes "deliv_inv s" "delivered s' = delivered s" "phases s' = (phases s)(j := p)"
    "phases s j \<noteq> Settled"
  shows "deliv_inv s'"
  using assms unfolding deliv_inv_def by auto

lemma deliv_same:
  assumes "deliv_inv s" "delivered s' = delivered s" "phases s' = phases s"
  shows "deliv_inv s'"
  using assms unfolding deliv_inv_def by auto

lemma deliv_add:
  assumes "deliv_inv s" "phases s j \<noteq> Settled" "delivered s' = delivered s @ [(j, x)]"
    "phases s' = (phases s)(j := Settled)"
  shows "deliv_inv s'"
  using assms unfolding deliv_inv_def by auto

lemma deliv_processNextJob:
  assumes "jobs_inv s" "deliv_inv s"
  shows "deliv_inv (processNextJob s)"
proof (cases s rule: processNextJob_effect)
  case idle
  with assms show ?thesis by simp
next
  case (dispatch "next" rest p)
  from assms(1) dispatch(1) have "phases s (ident next) = Pending"
    by (simp add: jobs_inv_def)
  then show ?thesis
    by (intro deliv_keep [OF assms(2), of _ "ident next" p]) (simp_all add: dispatch)
qed

lemma deliv_dispose_loop:
  assumes "jobs_inv s" "deliv_inv s"
  shows "deliv_inv (dispose_loop s)"
  using assms
proof (induction s rule: dispose_loop.induct)
  case (1 s)
  show ?case
  proof (cases "queue s")
    case Nil
    with "1.prems" show ?thesis by (subst dispose_loop.simps) simp
  next
    case (Cons job rest)
    let ?s' = "s\<lparr> queue := rest,
                  removed := removed s @ [(ident job, clock s)],
                  phases := (phases s)(ident job := Settled),
                  delivered := delivered s @
                    [(ident job, Reject (Error ''Queue has been disposed''))] \<rparr>"
    from "1.prems"(1) Cons have p: "phases s (ident job) = Pending"
      by (simp add: jobs_inv_def)
    have "jobs_inv ?s'"
      by (rule jobs_inv_shift [of s job rest Settled]) (use "1.prems" Cons in simp_all)
    moreover have "deliv_inv ?s'"
      by (rule deliv_add [OF "1.prems"(2), of "ident job"]) (simp_all add: p)
    ultimately have "deliv_inv (dispose_loop ?s')"
      using "1.IH" [of job rest] Cons by simp
    with Cons show ?thesis by (subst dispose_loop.simps) simp
  qed
qed

lemma deliv_schedule:
  assumes "jobs_inv s" "deliv_inv s"
  shows "deliv_inv (schedule s)"
proof (cases "isDisposed s")
  case True
  from assms(1) have "phases s (nextId s) = Pending" by (simp add: jobs_inv_def)
  then have "deliv_inv (s\<lparr> nextId := nextId s + 1,
      phases := (phases s)(nextId s := Settled),
      delivered := delivered s @ [(nextId s, Reject (Error ''Queue has been disposed''))] \<rparr>)"
    by (intro deliv_add [OF assms(2), of "nextId s"]) simp_all
  with True show ?thesis by (simp add: schedule_def Let_def)
next
  case False
  let ?s' = "s\<lparr> nextId := nextId s + 1,
      queue := queue s @ [\<lparr> ident = nextId s, queueStartTime = clock s \<rparr>],
      accepted := accepted s @ [(nextId s, clock s)] \<rparr>"
  have 1: "deliv_inv ?s'" by (rule deliv_same [OF assms(2)]) simp_all
  from assms(1) have 2: "jobs_inv ?s'"
    unfolding jobs_inv_def by (auto simp: less_Suc_eq)
  from 2 1 have "deliv_inv (processNextJob ?s')" by (rule deliv_processNextJob)
  with False show ?thesis by (simp add: schedule_def Let_def)
qed

lemma deliv_settle:
  assumes "jobs_inv s" "deliv_inv s" "in_flight (phases s j)"
  shows "deliv_inv (executeJob_settle j out s)"
proof -
  let ?s' = "s\<lparr> phases := (phases s)(j := Settled),
           delivered := delivered s @ [(j, out)],
           activeJobs := activeJobs s - 1 \<rparr>"
  have "jobs_inv ?s'"
    by (rule jobs_inv_move [of s j Settled]) (use assms in auto)
  moreover have "deliv_inv ?s'"
    by (rule deliv_add [OF assms(2), of j]) (use assms in auto)
  ultimately show ?thesis
    unfolding executeJob_settle_def by (rule deliv_processNextJob)
qed

lemma deliv_step:
  assumes "jobs_inv s" "deliv_inv s"
  shows "deliv_inv (step e s)"
proof (cases e)
  case (Tick d)
  show ?thesis by (rule deliv_same [OF assms(2)]) (simp_all add: Tick)
next
  case Schedule with assms show ?thesis by (simp add: deliv_schedule)
next
  case Dispose
  from assms have "jobs_inv (s\<lparr> isDisposed := True \<rparr>)" "deliv_inv (s\<lparr> isDisposed := True \<rparr>)"
    by (simp_all add: jobs_inv_def deliv_inv_def)
  with Dispose show ?thesis by (simp add: dispose_def deliv_dispose_loop)
next
  case (RateTimerFires j)
  have t: "deliv_inv (s\<lparr> timers := x \<rparr>)" for x
    by (rule deliv_same [OF assms(2)]) simp_all
  show ?thesis
  proof (cases "phases s j")
    case (RateWait e now)
    with assms have e: "ident e = j" by (auto simp: jobs_inv_def)
    have "deliv_inv (push_now e now (s\<lparr> timers := (timers s)((RateTimer, j) := None) \<rparr>))"
      by (rule deliv_keep [OF assms(2), of _ j "Ready e"]) (use RateWait e in simp_all)
    with assms RateWait RateTimerFires show ?thesis
      by (simp add: enforceRateLimit_resume_def Let_def split: option.splits)
  qed (use assms t RateTimerFires in
        \<open>auto simp: enforceRateLimit_resume_def Let_def split: option.splits\<close>)
next
  case (JobContinues j c)
  show ?thesis
  proof (cases j c s rule: executeJob_cases)
    case skip
    with assms JobContinues show ?thesis by simp
  next
    case (called e p)
    have "deliv_inv (executeJob j c s)"
      by (rule deliv_keep [OF assms(2), of _ j p])
         (use assms called in auto)
    with JobContinues show ?thesis by simp
  qed
next
  case (CatchRuns j)
  with assms show ?thesis
    by (auto simp: executeJob_catch_def deliv_settle split: phase.splits)
next
  case (TaskSettles j out)
  with assms show ?thesis
    by (auto simp: task_settles_def deliv_settle split: phase.splits outcome.splits)
next
  case (TimeoutFires j)
  let ?s1 = "s\<lparr> timers := (timers s)((TimeoutTimer, j) := None) \<rparr>"
  from assms have b: "jobs_inv ?s1" "deliv_inv ?s1"
    by (simp_all add: jobs_inv_def deliv_inv_def)
  show ?thesis
  proof (cases "phases s j")
    case (Running st qt)
    have "deliv_inv (executeJob_settle j (Reject (Error ''Job timed out'')) ?s1)"
      by (rule deliv_settle) (use b Running in simp_all)
    with assms Running TimeoutFires show ?thesis
      by (simp add: timeout_fires_def Let_def split: option.splits)
  qed (use assms b TimeoutFires in
        \<open>auto simp: timeout_fires_def Let_def split: option.splits\<close>)
qed

lemma deliv_run:
  assumes "new_JobQueue options = Inr s0"
  shows "jobs_inv (run evs s0) \<and> deliv_inv (run evs s0)"
proof (rule run_invariant [where P = "\<lambda>s. jobs_inv s \<and> deliv_inv s"])
  show "jobs_inv s0 \<and> deliv_inv s0"
    using new_JobQueue_fields [OF assms]
    by (simp add: jobs_inv_def deliv_inv_def)
qed (simp add: jobs_step deliv_step)

subsection \<open>The timeout of a running job is armed\<close>

lemma is_running_simps [simp]:
  "\<not> is_running Pending" "\<not> is_running (RateWait e now)" "\<not> is_running (Ready e)"
  "is_running (Running st qt)" "is_running (Thrown err)" "\<not> is_running Settled"
  by (simp_all add: is_running_def)

lemma in_admission_simps [simp]:
  "\<not> in_admission Pending" "in_admission (RateWait e now)" "in_admission (Ready e)"
  "\<not> in_admission (Running st qt)" "\<not> in_admission (Thrown err)" "\<not> in_admission Settled"
  by (simp_all add: in_admission_def)

lemma timer_none:
  assumes "timer_inv s" "\<And>st qt. phases s j \<noteq> Running st qt" "phases s j \<noteq> Settled"
  shows "timers s (TimeoutTimer, j) = None"
proof (cases "timers s (TimeoutTimer, j)")
  case (Some due)
  with assms show ?thesis unfolding timer_inv_def by blast
qed simp

text \<open>A job moves to a phase other than \<open>Running\<close>; the timers of the other jobs stay.\<close>

lemma timer_keep:
  assumes "timer_inv s" "timeoutLimit s' = timeoutLimit s"
    "phases s' = (phases s)(j := p)" "\<And>st qt. p \<noteq> Running st qt"
    "\<And>k. k \<noteq> j \<Longrightarrow> timers s' (TimeoutTimer, k) = timers s (TimeoutTimer, k)"
    "p = Settled \<or> timers s' (TimeoutTimer, j) = None"
  shows "timer_inv s'"
  unfolding timer_inv_def
proof (intro conjI allI impI)
  fix k st qt
  assume r: "phases s' k = Running st qt"
  with assms(3,4) have k: "k \<noteq> j" by auto
  with r assms(3) have "phases s k = Running st qt" by simp
  with assms(1) have "timers s (TimeoutTimer, k) = Some (st + setTimeout_delay (timeoutLimit s))"
    by (simp add: timer_inv_def)
  with k assms(2,5) show
    "timers s' (TimeoutTimer, k) = Some (st + setTimeout_delay (timeoutLimit s'))" by simp
next
  fix k due
  assume t: "timers s' (TimeoutTimer, k) = Some due"
  show "(\<exists>st qt. phases s' k = Running st qt) \<or> phases s' k = Settled"
  proof (cases "k = j")
    case True
    with t assms(3,6) show ?thesis by auto
  next
    case False
    with t assms(5) have "timers s (TimeoutTimer, k) = Some due" by simp
    with assms(1) have "(\<exists>st qt. phases s k = Running st qt) \<or> phases s k = Settled"
      unfolding timer_inv_def by blast
    with False assms(3) show ?thesis by simp
  qed
qed

lemma timer_same:
  assumes "timer_inv s" "timeoutLimit s' = timeoutLimit s" "phases s' = phases s"
    "\<And>k. timers s' (TimeoutTimer, k) = timers s (TimeoutTimer, k)"
  shows "timer_inv s'"
  using assms unfolding timer_inv_def by auto

lemma timer_processNextJob:
  assumes "jobs_inv s" "timer_inv s"
  shows "timer_inv (processNextJob s)"
proof (cases s rule: processNextJob_effect)
  case idle
  with assms show ?thesis by simp
next
  case (dispatch "next" rest p)
  from assms(1) dispatch(1) have "phases s (ident next) = Pending"
    by (simp add: jobs_inv_def)
  with assms(2) have "timers s (TimeoutTimer, ident next) = None"
    by (intro timer_none) simp_all
  moreover from dispatch(3) have "\<And>st qt. p \<noteq> Running st qt" by auto
  ultimately show ?thesis
    by (intro timer_keep [OF assms(2), of _ "ident next" p]) (simp_all add: dispatch)
qed

lemma timer_settle:
  assumes "jobs_inv s" "timer_inv s" "in_flight (phases s j)"
  shows "timer_inv (executeJob_settle j out s)"
proof -
  let ?s' = "s\<lparr> phases := (phases s)(j := Settled),
           delivered := delivered s @ [(j, out)],
           activeJobs := activeJobs s - 1 \<rparr>"
  have "jobs_inv ?s'"
    by (rule jobs_inv_move [of s j Settled]) (use assms in auto)
  moreover have "timer_inv ?s'"
    by (rule timer_keep [OF assms(2), of _ j Settled]) simp_all
  ultimately show ?thesis
    unfolding executeJob_settle_def by (rule timer_processNextJob)
qed

lemma timer_dispose_loop:
  assumes "jobs_inv s" "timer_inv s"
  shows "timer_inv (dispose_loop s)"
  using assms
proof (induction s rule: dispose_loop.induct)
  case (1 s)
  show ?case
  proof (cases "queue s")
    case Nil
    with "1.prems" show ?thesis by (subst dispose_loop.simps) simp
  next
    case (Cons job rest)
    let ?s' = "s\<lparr> queue := rest,
                  removed := removed s @ [(ident job, clock s)],
                  phases := (phases s)(ident job := Settled),
                  delivered := delivered s @
                    [(ident job, Reject (Error ''Queue has been disposed''))] \<rparr>"
    have "jobs_inv ?s'"
      by (rule jobs_inv_shift [of s job rest Settled]) (use "1.prems" Cons in simp_all)
    moreover have "timer_inv ?s'"
      by (rule timer_keep [OF "1.prems"(2), of _ "ident job" Settled]) simp_all
    ultimately have "timer_inv (dispose_loop ?s')"
      using "1.IH" [of job rest] Cons by simp
    with Cons show ?thesis by (subst dispose_loop.simps) simp
  qed
qed

lemma timer_step:
  assumes "jobs_inv s" "timer_inv s"
  shows "timer_inv (step e s)"
proof (cases e)
  case (Tick d)
  show ?thesis by (rule timer_same [OF assms(2)]) (simp_all add: Tick)
next
  case Schedule
  show ?thesis
  proof (cases "isDisposed s")
    case True
    have "timer_inv (s\<lparr> nextId := nextId s + 1,
      phases := (phases s)(nextId s := Settled),
      delivered := delivered s @ [(nextId s, Reject (Error ''Queue has been disposed''))] \<rparr>)"
      by (rule timer_keep [OF assms(2), of _ "nextId s" Settled]) simp_all
    with True Schedule show ?thesis by (simp add: schedule_def Let_def)
  next
    case False
    let ?s' = "s\<lparr> nextId := nextId s + 1,
      queue := queue s @ [\<lparr> ident = nextId s, queueStartTime = clock s \<rparr>],
      accepted := accepted s @ [(nextId s, clock s)] \<rparr>"
    from assms(1) have "jobs_inv ?s'"
      unfolding jobs_inv_def by (auto simp: less_Suc_eq)
    moreover have "timer_inv ?s'" by (rule timer_same [OF assms(2)]) simp_all
    ultimately have "timer_inv (processNextJob ?s')" by (rule timer_processNextJob)
    with False Schedule show ?thesis by (simp add: schedule_def Let_def)
  qed
next
  case Dispose
  from assms(1) have "jobs_inv (s\<lparr> isDisposed := True \<rparr>)" by (simp add: jobs_inv_def)
  moreover have "timer_inv (s\<lparr> isDisposed := True \<rparr>)"
    by (rule timer_same [OF assms(2)]) simp_all
  ultimately show ?thesis using Dispose by (simp add: dispose_def timer_dispose_loop)
next
  case (RateTimerFires j)
  have t: "timer_inv (s\<lparr> timers := (timers s)((RateTimer, j) := None) \<rparr>)"
    by (rule timer_same [OF assms(2)]) simp_all
  show ?thesis
  proof (cases "phases s j")
    case (RateWait e now)
    with assms(1) have e: "ident e = j" by (auto simp: jobs_inv_def)
    from assms(2) RateWait have "timers s (TimeoutTimer, j) = None"
      by (intro timer_none) simp_all
    then have
      "timer_inv (push_now e now (s\<lparr> timers := (timers s)((RateTimer, j) := None) \<rparr>))"
      by (intro timer_keep [OF assms(2), of _ j "Ready e"]) (simp_all add: e)
    with RateWait RateTimerFires assms show ?thesis
      by (simp add: enforceRateLimit_resume_def Let_def split: option.splits)
  qed (use assms t RateTimerFires in
        \<open>auto simp: enforceRateLimit_resume_def Let_def split: option.splits\<close>)
next
  case (JobContinues j c)
  show ?thesis
  proof (cases "phases s j")
    case (Ready e)
    show ?thesis
    proof (cases c)
      case Returns
      have
        "timer_inv (s\<lparr> phases := (phases s)(j := Running (clock s) (clock s - queueStartTime e)),
               started := started s @ [(j, clock s)],
               timers := (timers s)((TimeoutTimer, j) \<mapsto>
                 clock s + setTimeout_delay (timeoutLimit s)) \<rparr>)"
        using assms(2) unfolding timer_inv_def by auto
      with Ready Returns JobContinues show ?thesis by (simp add: executeJob_def Let_def)
    next
      case (Throws err)
      from assms(2) Ready have "timers s (TimeoutTimer, j) = None"
        by (intro timer_none) simp_all
      then have "timer_inv (s\<lparr> phases := (phases s)(j := Thrown err),
               started := started s @ [(j, clock s)] \<rparr>)"
        by (intro timer_keep [OF assms(2), of _ j "Thrown err"]) simp_all
      with Ready Throws JobContinues show ?thesis by (simp add: executeJob_def Let_def)
    qed
  qed (use assms JobContinues in \<open>auto simp: executeJob_def\<close>)
next
  case (CatchRuns j)
  with assms show ?thesis
    by (auto simp: executeJob_catch_def timer_settle split: phase.splits)
next
  case (TaskSettles j out)
  with assms show ?thesis
    by (auto simp: task_settles_def timer_settle split: phase.splits outcome.splits)
next
  case (TimeoutFires j)
  let ?s1 = "s\<lparr> timers := (timers s)((TimeoutTimer, j) := None) \<rparr>"
  have t: "timer_inv ?s1" if "\<And>st qt. phases s j \<noteq> Running st qt"
    by (rule timer_keep [OF assms(2), of _ j "phases s j"]) (simp_all add: that)
  show ?thesis
  proof (cases "phases s j")
    case (Running st qt)
    let ?s2 = "?s1\<lparr> phases := (phases ?s1)(j := Settled),
           delivered := delivered ?s1 @ [(j, Reject (Error ''Job timed out''))],
           activeJobs := activeJobs ?s1 - 1 \<rparr>"
    have "jobs_inv ?s2"
      by (rule jobs_inv_move [OF assms(1), of j Settled]) (simp_all add: Running)
    moreover have "timer_inv ?s2"
      by (rule timer_keep [OF assms(2), of _ j Settled]) simp_all
    ultimately have "timer_inv (processNextJob ?s2)" by (rule timer_processNextJob)
    with assms Running TimeoutFires show ?thesis
      by (simp add: timeout_fires_def executeJob_settle_def Let_def split: option.splits)
  qed (use assms t TimeoutFires in
        \<open>auto simp: timeout_fires_def Let_def split: option.splits\<close>)
qed

lemma timer_run:
  assumes "new_JobQueue options = Inr s0"
  shows "jobs_inv (run evs s0) \<and> timer_inv (run evs s0)"
proof (rule run_invariant [where P = "\<lambda>s. jobs_inv s \<and> timer_inv s"])
  show "jobs_inv s0 \<and> timer_inv s0"
    using new_JobQueue_fields [OF assms] by (simp add: jobs_inv_def timer_inv_def)
qed (simp add: jobs_step timer_step)

subsection \<open>A settled future stays settled\<close>

lemma settled_processNextJob:
  assumes "jobs_inv s" "phases s j = Settled"
  shows "phases (processNextJob s) j = Settled"
proof (cases s rule: processNextJob_effect)
  case idle
  with assms show ?thesis by simp
next
  case (dispatch "next" rest p)
  from assms(1) dispatch(1) have "phases s (ident next) = Pending"
    by (simp add: jobs_inv_def)
  with assms(2) have "ident next \<noteq> j" by auto
  with assms(2) dispatch(4) show ?thesis by simp
qed

lemma settled_step:
  assumes "jobs_inv s" "phases s j = Settled"
  shows "phases (step e s) j = Settled"
proof (cases e)
  case Schedule
  show ?thesis
  proof (cases "isDisposed s")
    case True
    with assms Schedule show ?thesis by (simp add: schedule_def Let_def)
  next
    case False
    let ?s' = "s\<lparr> nextId := nextId s + 1,
      queue := queue s @ [\<lparr> ident = nextId s, queueStartTime = clock s \<rparr>],
      accepted := accepted s @ [(nextId s, clock s)] \<rparr>"
    from assms(1) have "jobs_inv ?s'"
      unfolding jobs_inv_def by (auto simp: less_Suc_eq)
    then have "phases (processNextJob ?s') j = Settled"
      by (rule settled_processNextJob) (simp add: assms(2))
    with False Schedule show ?thesis by (simp add: schedule_def Let_def)
  qed
next
  case Dispose
  with assms show ?thesis by (simp add: dispose_def dispose_loop_phases)
next
  case (RateTimerFires k)
  with assms show ?thesis
    by (auto simp: enforceRateLimit_resume_def Let_def jobs_inv_def
          split: option.splits phase.splits)
next
  case (JobContinues k c)
  with assms show ?thesis
    by (auto simp: executeJob_def Let_def split: phase.splits call.splits)
next
  case (CatchRuns k)
  have "phases (executeJob_settle k x s) j = Settled" if "phases s k = Thrown err"
    for x err
    unfolding executeJob_settle_def
    by (rule settled_processNextJob, rule jobs_inv_move [OF assms(1), of k Settled])
       (use assms that in simp_all)
  with assms CatchRuns show ?thesis
    by (auto simp: executeJob_catch_def split: phase.splits)
next
  case (TaskSettles k out)
  have "phases (executeJob_settle k x s) j = Settled" if "phases s k = Running st qt"
    for x st qt
    unfolding executeJob_settle_def
    by (rule settled_processNextJob, rule jobs_inv_move [OF assms(1), of k Settled])
       (use assms that in simp_all)
  with assms TaskSettles show ?thesis
    by (auto simp: task_settles_def split: phase.splits outcome.splits)
next
  case (TimeoutFires k)
  let ?s1 = "s\<lparr> timers := (timers s)((TimeoutTimer, k) := None) \<rparr>"
  from assms(1) have b: "jobs_inv ?s1" by (simp add: jobs_inv_def)
  have "phases (executeJob_settle k x ?s1) j = Settled" if "phases s k = Running st qt"
    for x st qt
    unfolding executeJob_settle_def
    by (rule settled_processNextJob, rule jobs_inv_move [OF b, of k Settled])
       (use assms that in simp_all)
  with assms TimeoutFires show ?thesis
    by (auto simp: timeout_fires_def Let_def split: option.splits phase.splits)
qed (use assms in simp_all)

lemma settled_run:
  assumes "jobs_inv s" "phases s j = Settled"
  shows "jobs_inv (run evs s) \<and> phases (run evs s) j = Settled"
  by (rule run_invariant [where P = "\<lambda>s. jobs_inv s \<and> phases s j = Settled"])
     (simp_all add: assms jobs_step settled_step)

subsection \<open>Submission time, start time and \<open>queueTime\<close>\<close>

lemma phase_ok_mono:
  assumes "phase_ok s j p" "set (accepted s) \<subseteq> set (accepted s')" "clock s \<le> clock s'"
    "started s' = started s"
  shows "phase_ok s' j p"
  using assms by (cases p) auto

lemma phase_ok_started:
  assumes "phase_ok s j p" "accepted s' = accepted s" "clock s' = clock s"
    "started s' = started s @ [(k, t)]" "k \<noteq> j"
  shows "phase_ok s' j p"
  using assms by (cases p) auto

lemma resolved_mono:
  assumes "\<forall>j r. (j, Resolve r) \<in> D \<longrightarrow>
        (\<exists>st. (j, st) \<in> S \<and> (j, st - queueTime r) \<in> A) \<and> 0 \<le> queueTime r"
    "S \<subseteq> S'" "A \<subseteq> A'"
  shows "\<forall>j r. (j, Resolve r) \<in> D \<longrightarrow>
        (\<exists>st. (j, st) \<in> S' \<and> (j, st - queueTime r) \<in> A') \<and> 0 \<le> queueTime r"
  using assms by (meson subsetD)

lemma time_inv_same:
  assumes "time_inv s" "queue s' = queue s" "phases s' = phases s"
    "set (accepted s) \<subseteq> set (accepted s')" "clock s \<le> clock s'" "started s' = started s"
    "delivered s' = delivered s"
  shows "time_inv s'"
proof -
  have "phase_ok s' j (phases s' j)" for j
    by (rule phase_ok_mono [of s]) (use assms in \<open>simp_all add: time_inv_def\<close>)
  moreover have "\<forall>e \<in> set (queue s').
        (ident e, queueStartTime e) \<in> set (accepted s') \<and> queueStartTime e \<le> clock s'"
    using assms unfolding time_inv_def by fastforce
  moreover have "\<forall>j r. (j, Resolve r) \<in> set (delivered s') \<longrightarrow>
        (\<exists>st. (j, st) \<in> set (started s') \<and> (j, st - queueTime r) \<in> set (accepted s')) \<and>
        0 \<le> queueTime r"
    using assms unfolding time_inv_def by (metis subsetD)
  ultimately show ?thesis using assms(1,6) unfolding time_inv_def by simp
qed

text \<open>A job changes its phase, nothing is started and nothing is resolved.\<close>

lemma time_inv_move:
  assumes "time_inv s" "set (queue s') \<subseteq> set (queue s)" "phases s' = (phases s)(j := p)"
    "phase_ok s j p" "accepted s' = accepted s" "clock s' = clock s"
    "started s' = started s"
    "delivered s' = delivered s \<or> (\<exists>k err. delivered s' = delivered s @ [(k, Reject err)])"
  shows "time_inv s'"
proof -
  have "phase_ok s' k (phases s' k)" for k
    by (rule phase_ok_mono [of s]) (use assms in \<open>simp_all add: time_inv_def\<close>)
  moreover have "\<forall>e \<in> set (queue s').
        (ident e, queueStartTime e) \<in> set (accepted s') \<and> queueStartTime e \<le> clock s'"
    using assms unfolding time_inv_def by fastforce
  moreover have "\<forall>j r. (j, Resolve r) \<in> set (delivered s') \<longrightarrow>
        (\<exists>st. (j, st) \<in> set (started s') \<and> (j, st - queueTime r) \<in> set (accepted s')) \<and>
        0 \<le> queueTime r"
    using assms unfolding time_inv_def by auto
  ultimately show ?thesis using assms(1,7) unfolding time_inv_def by simp
qed

lemma time_processNextJob:
  assumes "jobs_inv s" "time_inv s"
  shows "time_inv (processNextJob s)"
proof (cases s rule: processNextJob_effect)
  case idle
  with assms show ?thesis by simp
next
  case (dispatch "next" rest p)
  from assms(1) dispatch(1) have "phases s (ident next) = Pending"
    by (simp add: jobs_inv_def)
  with assms(2) have "phase_ok s (ident next) Pending"
    unfolding time_inv_def by metis
  moreover from assms(2) dispatch(1)
  have "(ident next, queueStartTime next) \<in> set (accepted s)" "queueStartTime next \<le> clock s"
    by (simp_all add: time_inv_def)
  ultimately have "phase_ok s (ident next) p" using dispatch(3) by auto
  then show ?thesis
    by (intro time_inv_move [OF assms(2), of _ "ident next" p]) (auto simp: dispatch)
qed

lemma time_dispose_loop:
  assumes "time_inv s"
  shows "time_inv (dispose_loop s)"
  using assms
proof (induction s rule: dispose_loop.induct)
  case (1 s)
  show ?case
  proof (cases "queue s")
    case Nil
    with "1.prems" show ?thesis by (subst dispose_loop.simps) simp
  next
    case (Cons job rest)
    let ?s' = "s\<lparr> queue := rest,
                  removed := removed s @ [(ident job, clock s)],
                  phases := (phases s)(ident job := Settled),
                  delivered := delivered s @
                    [(ident job, Reject (Error ''Queue has been disposed''))] \<rparr>"
    have "time_inv ?s'"
      by (rule time_inv_move [OF "1.prems", of _ "ident job" Settled])
         (auto simp: Cons)
    then have "time_inv (dispose_loop ?s')"
      using "1.IH" [of job rest] Cons by simp
    with Cons show ?thesis by (subst dispose_loop.simps) simp
  qed
qed

lemma time_schedule:
  assumes "jobs_inv s" "time_inv s"
  shows "time_inv (schedule s)"
proof (cases "isDisposed s")
  case True
  have "time_inv (s\<lparr> nextId := nextId s + 1,
      phases := (phases s)(nextId s := Settled),
      delivered := delivered s @ [(nextId s, Reject (Error ''Queue has been disposed''))] \<rparr>)"
    by (rule time_inv_move [OF assms(2), of _ "nextId s" Settled]) simp_all
  with True show ?thesis by (simp add: schedule_def Let_def)
next
  case False
  let ?s' = "s\<lparr> nextId := nextId s + 1,
      queue := queue s @ [\<lparr> ident = nextId s, queueStartTime = clock s \<rparr>],
      accepted := accepted s @ [(nextId s, clock s)] \<rparr>"
  have "phase_ok ?s' j (phases ?s' j)" for j
    by (rule phase_ok_mono [of s]) (use assms(2) in \<open>auto simp: time_inv_def\<close>)
  moreover have "\<forall>j r. (j, Resolve r) \<in> set (delivered ?s') \<longrightarrow>
        (\<exists>st. (j, st) \<in> set (started ?s') \<and> (j, st - queueTime r) \<in> set (accepted ?s')) \<and>
        0 \<le> queueTime r"
    by (rule resolved_mono [where S = "set (started s)" and A = "set (accepted s)"])
       (use assms(2) in \<open>auto simp: time_inv_def\<close>)
  moreover have "\<forall>e \<in> set (queue ?s').
        (ident e, queueStartTime e) \<in> set (accepted ?s') \<and> queueStartTime e \<le> clock ?s'"
    using assms(2) unfolding time_inv_def by auto
  ultimately have 1: "time_inv ?s'"
    using assms(2) unfolding time_inv_def by simp
  from assms(1) have 2: "jobs_inv ?s'"
    unfolding jobs_inv_def by (auto simp: less_Suc_eq)
  from 2 1 have "time_inv (processNextJob ?s')" by (rule time_processNextJob)
  with False show ?thesis by (simp add: schedule_def Let_def)
qed

lemma time_reject:
  assumes "jobs_inv s" "time_inv s" "in_flight (phases s j)"
  shows "time_inv (executeJob_settle j (Reject err) s)"
proof -
  let ?s' = "s\<lparr> phases := (phases s)(j := Settled),
           delivered := delivered s @ [(j, Reject err)],
           activeJobs := activeJobs s - 1 \<rparr>"
  have "jobs_inv ?s'"
    by (rule jobs_inv_move [of s j Settled]) (use assms in auto)
  moreover have "time_inv ?s'"
    by (rule time_inv_move [OF assms(2), of _ j Settled]) simp_all
  ultimately show ?thesis
    unfolding executeJob_settle_def by (rule time_processNextJob)
qed

lemma time_resolve:
  assumes "jobs_inv s" "time_inv s" "phases s j = Running st qt" "queueTime r = qt"
  shows "time_inv (executeJob_settle j (Resolve r) s)"
proof -
  let ?s' = "s\<lparr> phases := (phases s)(j := Settled),
           delivered := delivered s @ [(j, Resolve r)],
           activeJobs := activeJobs s - 1 \<rparr>"
  have "jobs_inv ?s'"
    by (rule jobs_inv_move [of s j Settled]) (use assms in auto)
  moreover have "time_inv ?s'"
  proof -
    from assms(2,3) have "phase_ok s j (Running st qt)"
      unfolding time_inv_def by metis
    then have r: "(j, st) \<in> set (started s)" "(j, st - qt) \<in> set (accepted s)" "0 \<le> qt"
      by simp_all
    have "phase_ok ?s' k (phases ?s' k)" for k
      by (rule phase_ok_mono [of s]) (use assms(2) in \<open>simp_all add: time_inv_def\<close>)
    moreover have "\<forall>k r'. (k, Resolve r') \<in> set (delivered ?s') \<longrightarrow>
        (\<exists>st. (k, st) \<in> set (started ?s') \<and> (k, st - queueTime r') \<in> set (accepted ?s')) \<and>
        0 \<le> queueTime r'"
      using assms(2,4) r unfolding time_inv_def by auto
    ultimately show ?thesis using assms(2) unfolding time_inv_def by simp
  qed
  ultimately show ?thesis
    unfolding executeJob_settle_def by (rule time_processNextJob)
qed

lemma time_executeJob:
  assumes "jobs_inv s" "time_inv s" "phases s j = Ready e"
  shows "time_inv (executeJob j c s)" (is "time_inv ?s'")
proof -
  from assms(1,3) have e: "ident e = j" by (auto simp: jobs_inv_def)
  from assms(2,3) have "phase_ok s j (Ready e)" unfolding time_inv_def by metis
  with e have r: "(j, queueStartTime e) \<in> set (accepted s)" "queueStartTime e \<le> clock s"
    "j \<notin> fst ` set (started s)" by simp_all
  obtain p where p: "p = Running (clock s) (clock s - queueStartTime e) \<or> (\<exists>err. p = Thrown err)"
    "phases ?s' = (phases s)(j := p)" "started ?s' = started s @ [(j, clock s)]"
  proof (cases c)
    case Returns
    with assms(3) show ?thesis
      by (intro that [of "Running (clock s) (clock s - queueStartTime e)"])
         (simp_all add: executeJob_def Let_def)
  next
    case (Throws err)
    with assms(3) show ?thesis
      by (intro that [of "Thrown err"]) (simp_all add: executeJob_def Let_def)
  qed
  have "phase_ok ?s' k (phases ?s' k)" for k
  proof (cases "k = j")
    case True
    with r p show ?thesis by auto
  next
    case False
    have "phase_ok ?s' k (phases s k)"
      by (rule phase_ok_started [of s _ _ _ j "clock s"])
         (use assms(2) False p in \<open>simp_all add: time_inv_def\<close>)
    with False p show ?thesis by simp
  qed
  moreover have "distinct (map fst (started ?s'))"
    using assms(2) r(3) p by (simp add: time_inv_def)
  moreover have "\<forall>k r'. (k, Resolve r') \<in> set (delivered ?s') \<longrightarrow>
        (\<exists>st. (k, st) \<in> set (started ?s') \<and> (k, st - queueTime r') \<in> set (accepted ?s')) \<and>
        0 \<le> queueTime r'"
    by (rule resolved_mono [where S = "set (started s)" and A = "set (accepted s)"])
       (use assms(2) p in \<open>auto simp: time_inv_def\<close>)
  moreover have "\<forall>e \<in> set (queue ?s').
        (ident e, queueStartTime e) \<in> set (accepted ?s') \<and> queueStartTime e \<le> clock ?s'"
    using assms(2) unfolding time_inv_def by auto
  ultimately show ?thesis unfolding time_inv_def by blast
qed

lemma time_step:
  assumes "jobs_inv s" "time_inv s"
  shows "time_inv (step e s)"
proof (cases e)
  case (Tick d)
  show ?thesis by (rule time_inv_same [OF assms(2)]) (simp_all add: Tick)
next
  case Schedule with assms show ?thesis by (simp add: time_schedule)
next
  case Dispose
  have "time_inv (s\<lparr> isDisposed := True \<rparr>)"
    by (rule time_inv_same [OF assms(2)]) simp_all
  with Dispose show ?thesis by (simp add: dispose_def time_dispose_loop)
next
  case (RateTimerFires j)
  have t: "time_inv (s\<lparr> timers := x \<rparr>)" for x
    by (rule time_inv_same [OF assms(2)]) simp_all
  show ?thesis
  proof (cases "phases s j")
    case (RateWait e now)
    with assms have e: "ident e = j" by (auto simp: jobs_inv_def)
    from assms(2) RateWait have "phase_ok s j (RateWait e now)"
      unfolding time_inv_def by metis
    then have "phase_ok s j (Ready e)" by simp
    then have
      "time_inv (push_now e now (s\<lparr> timers := (timers s)((RateTimer, j) := None) \<rparr>))"
      by (intro time_inv_move [OF assms(2), of _ j "Ready e"]) (simp_all add: e)
    with assms RateWait RateTimerFires show ?thesis
      by (simp add: enforceRateLimit_resume_def Let_def split: option.splits)
  qed (use assms t RateTimerFires in
        \<open>auto simp: enforceRateLimit_resume_def Let_def split: option.splits\<close>)
next
  case (JobContinues j c)
  show ?thesis
  proof (cases "phases s j")
    case (Ready e)
    from time_executeJob [OF assms this] JobContinues show ?thesis by simp
  qed (use assms JobContinues in \<open>auto simp: executeJob_def\<close>)
next
  case (CatchRuns j)
  with assms show ?thesis
    by (auto simp: executeJob_catch_def time_reject split: phase.splits)
next
  case (TaskSettles j out)
  with assms show ?thesis
    by (auto simp: task_settles_def time_reject time_resolve
          split: phase.splits outcome.splits)
next
  case (TimeoutFires j)
  let ?s1 = "s\<lparr> timers := (timers s)((TimeoutTimer, j) := None) \<rparr>"
  from assms(1) have b: "jobs_inv ?s1" by (simp add: jobs_inv_def)
  have c: "time_inv ?s1" by (rule time_inv_same [OF assms(2)]) simp_all
  show ?thesis
  proof (cases "phases s j")
    case (Running st qt)
    have "time_inv (executeJob_settle j (Reject (Error ''Job timed out'')) ?s1)"
      by (rule time_reject) (use b c Running in simp_all)
    with assms Running TimeoutFires show ?thesis
      by (simp add: timeout_fires_def Let_def split: option.splits)
  qed (use assms b c TimeoutFires in
        \<open>auto simp: timeout_fires_def Let_def split: option.splits\<close>)
qed

lemma time_run:
  assumes "new_JobQueue options = Inr s0"
  shows "jobs_inv (run evs s0) \<and> time_inv (run evs s0)"
proof (rule run_invariant [where P = "\<lambda>s. jobs_inv s \<and> time_inv s"])
  show "jobs_inv s0 \<and> time_inv s0"
    using new_JobQueue_fields [OF assms]
    by (simp add: jobs_inv_def time_inv_def)
qed (simp add: jobs_step time_step)

subsection \<open>Taken from the queue and not yet settled\<close>

lemma log_ok_cong:
  assumes "log_ok s j p" "j \<in> fst ` set (removed s') \<longleftrightarrow> j \<in> fst ` set (removed s)"
    "j \<in> fst ` set (delivered s') \<longleftrightarrow> j \<in> fst ` set (delivered s)"
  shows "log_ok s' j p"
  using assms by (cases p) simp_all

lemma log_inv_same:
  assumes "log_inv s" "phases s' = phases s" "removed s' = removed s"
    "delivered s' = delivered s"
  shows "log_inv s'"
  unfolding log_inv_def
proof
  fix j
  from assms(1) have "log_ok s j (phases s j)" by (simp add: log_inv_def)
  then have "log_ok s' j (phases s j)" by (rule log_ok_cong) (simp_all add: assms)
  then show "log_ok s' j (phases s' j)" by (simp add: assms(2))
qed

text \<open>One job changes its phase; the logs change for that job only.\<close>

lemma log_inv_move:
  assumes "log_inv s" "phases s' = (phases s)(j := p)" "log_ok s' j p"
    "\<And>k. k \<noteq> j \<Longrightarrow> k \<in> fst ` set (removed s') \<longleftrightarrow> k \<in> fst ` set (removed s)"
    "\<And>k. k \<noteq> j \<Longrightarrow> k \<in> fst ` set (delivered s') \<longleftrightarrow> k \<in> fst ` set (delivered s)"
  shows "log_inv s'"
  unfolding log_inv_def
proof
  fix k
  show "log_ok s' k (phases s' k)"
  proof (cases "k = j")
    case True
    with assms(2,3) show ?thesis by simp
  next
    case False
    from assms(1) have "log_ok s k (phases s k)" by (simp add: log_inv_def)
    then have "log_ok s' k (phases s k)"
      by (rule log_ok_cong) (simp_all add: assms(4,5) False)
    with False assms(2) show ?thesis by simp
  qed
qed

lemma log_processNextJob:
  assumes "jobs_inv s" "log_inv s"
  shows "log_inv (processNextJob s)"
proof (cases s rule: processNextJob_effect)
  case idle
  with assms show ?thesis by simp
next
  case (dispatch "next" rest p)
  from assms(1) dispatch(1) have "phases s (ident next) = Pending"
    by (simp add: jobs_inv_def)
  with assms(2) have "log_ok s (ident next) Pending"
    unfolding log_inv_def by metis
  with dispatch(3) have "log_ok (processNextJob s) (ident next) p"
    by (auto simp: dispatch(6))
  then show ?thesis
    by (rule log_inv_move [OF assms(2) dispatch(4)]) (auto simp: dispatch(6))
qed

lemma log_dispose_loop:
  assumes "jobs_inv s" "log_inv s"
  shows "log_inv (dispose_loop s)"
  using assms
proof (induction s rule: dispose_loop.induct)
  case (1 s)
  show ?case
  proof (cases "queue s")
    case Nil
    with "1.prems" show ?thesis by (subst dispose_loop.simps) simp
  next
    case (Cons job rest)
    let ?s' = "s\<lparr> queue := rest,
                  removed := removed s @ [(ident job, clock s)],
                  phases := (phases s)(ident job := Settled),
                  delivered := delivered s @
                    [(ident job, Reject (Error ''Queue has been disposed''))] \<rparr>"
    have "jobs_inv ?s'"
      by (rule jobs_inv_shift [of s job rest Settled]) (use "1.prems" Cons in simp_all)
    moreover have "log_inv ?s'"
      by (rule log_inv_move [OF "1.prems"(2), of _ "ident job" Settled]) auto
    ultimately have "log_inv (dispose_loop ?s')"
      using "1.IH" [of job rest] Cons by simp
    with Cons show ?thesis by (subst dispose_loop.simps) simp
  qed
qed

lemma log_schedule:
  assumes "jobs_inv s" "log_inv s"
  shows "log_inv (schedule s)"
proof (cases "isDisposed s")
  case True
  have "log_inv (s\<lparr> nextId := nextId s + 1,
      phases := (phases s)(nextId s := Settled),
      delivered := delivered s @ [(nextId s, Reject (Error ''Queue has been disposed''))] \<rparr>)"
    by (rule log_inv_move [OF assms(2), of _ "nextId s" Settled]) auto
  with True show ?thesis by (simp add: schedule_def Let_def)
next
  case False
  let ?s' = "s\<lparr> nextId := nextId s + 1,
      queue := queue s @ [\<lparr> ident = nextId s, queueStartTime = clock s \<rparr>],
      accepted := accepted s @ [(nextId s, clock s)] \<rparr>"
  have 1: "log_inv ?s'" by (rule log_inv_same [OF assms(2)]) simp_all
  from assms(1) have 2: "jobs_inv ?s'"
    unfolding jobs_inv_def by (auto simp: less_Suc_eq)
  from 2 1 have "log_inv (processNextJob ?s')" by (rule log_processNextJob)
  with False show ?thesis by (simp add: schedule_def Let_def)
qed

lemma log_settle:
  assumes "jobs_inv s" "log_inv s" "in_flight (phases s j)"
  shows "log_inv (executeJob_settle j out s)"
proof -
  let ?s' = "s\<lparr> phases := (phases s)(j := Settled),
           delivered := delivered s @ [(j, out)],
           activeJobs := activeJobs s - 1 \<rparr>"
  have "jobs_inv ?s'"
    by (rule jobs_inv_move [of s j Settled]) (use assms in auto)
  moreover have "log_inv ?s'"
    by (rule log_inv_move [OF assms(2), of _ j Settled]) auto
  ultimately show ?thesis
    unfolding executeJob_settle_def by (rule log_processNextJob)
qed

text \<open>A job taken from the queue moves on, and no log changes.\<close>

lemma log_inv_advance:
  assumes "log_inv s" "in_flight (phases s j)" "in_flight p"
    "phases s' = (phases s)(j := p)" "removed s' = removed s" "delivered s' = delivered s"
  shows "log_inv s'"
proof (rule log_inv_move [OF assms(1,4)])
  from assms(1) have "log_ok s j (phases s j)" by (simp add: log_inv_def)
  with assms(2) have "j \<in> fst ` set (removed s) \<and> j \<notin> fst ` set (delivered s)"
    by (cases "phases s j") simp_all
  with assms(3,5,6) show "log_ok s' j p" by (cases p) simp_all
qed (simp_all add: assms(5,6))

lemma log_step:
  assumes "jobs_inv s" "log_inv s"
  shows "log_inv (step e s)"
proof (cases e)
  case (Tick d)
  show ?thesis by (rule log_inv_same [OF assms(2)]) (simp_all add: Tick)
next
  case Schedule with assms show ?thesis by (simp add: log_schedule)
next
  case Dispose
  from assms(1) have "jobs_inv (s\<lparr> isDisposed := True \<rparr>)" by (simp add: jobs_inv_def)
  moreover have "log_inv (s\<lparr> isDisposed := True \<rparr>)"
    by (rule log_inv_same [OF assms(2)]) simp_all
  ultimately show ?thesis using Dispose by (simp add: dispose_def log_dispose_loop)
next
  case (RateTimerFires j)
  have t: "log_inv (s\<lparr> timers := x \<rparr>)" for x
    by (rule log_inv_same [OF assms(2)]) simp_all
  show ?thesis
  proof (cases "phases s j")
    case (RateWait e now)
    with assms have e: "ident e = j" by (auto simp: jobs_inv_def)
    have "log_inv (push_now e now (s\<lparr> timers := (timers s)((RateTimer, j) := None) \<rparr>))"
      by (rule log_inv_advance [OF assms(2), of j "Ready e"]) (simp_all add: RateWait e)
    with assms RateWait RateTimerFires show ?thesis
      by (simp add: enforceRateLimit_resume_def Let_def split: option.splits)
  qed (use assms t RateTimerFires in
        \<open>auto simp: enforceRateLimit_resume_def Let_def split: option.splits\<close>)
next
  case (JobContinues j c)
  show ?thesis
  proof (cases j c s rule: executeJob_cases)
    case skip
    with assms JobContinues show ?thesis by simp
  next
    case (called e p)
    have "log_inv (executeJob j c s)"
      by (rule log_inv_advance [OF assms(2), of j p])
         (use assms called in auto)
    with JobContinues show ?thesis by simp
  qed
next
  case (CatchRuns j)
  with assms show ?thesis
    by (auto simp: executeJob_catch_def log_settle split: phase.splits)
next
  case (TaskSettles j out)
  with assms show ?thesis
    by (auto simp: task_settles_def log_settle split: phase.splits outcome.splits)
next
  case (TimeoutFires j)
  let ?s1 = "s\<lparr> timers := (timers s)((TimeoutTimer, j) := None) \<rparr>"
  from assms(1) have b: "jobs_inv ?s1" by (simp add: jobs_inv_def)
  have c: "log_inv ?s1" by (rule log_inv_same [OF assms(2)]) simp_all
  show ?thesis
  proof (cases "phases s j")
    case (Running st qt)
    have "log_inv (executeJob_settle j (Reject (Error ''Job timed out'')) ?s1)"
      by (rule log_settle) (use b c Running in simp_all)
    with assms Running TimeoutFires show ?thesis
      by (simp add: timeout_fires_def Let_def split: option.splits)
  qed (use assms b c TimeoutFires in
        \<open>auto simp: timeout_fires_def Let_def split: option.splits\<close>)
qed

lemma log_run:
  assumes "new_JobQueue options = Inr s0"
  shows "jobs_inv (run evs s0) \<and> log_inv (run evs s0)"
proof (rule run_invariant [where P = "\<lambda>s. jobs_inv s \<and> log_inv s"])
  show "jobs_inv s0 \<and> log_inv s0"
    using new_JobQueue_fields [OF assms]
    by (simp add: jobs_inv_def log_inv_def)
qed (simp add: jobs_step log_step)

lemma in_flight_jobs_logs:
  assumes "jobs_inv s" "log_inv s"
  shows "set (in_flight_jobs s) = fst ` set (removed s) - fst ` set (delivered s)"
proof (rule set_eqI)
  fix j
  from assms(2) have l: "log_ok s j (phases s j)" by (simp add: log_inv_def)
  have "in_flight (phases s j) \<longleftrightarrow>
      j \<in> fst ` set (removed s) \<and> j \<notin> fst ` set (delivered s)"
    using l by (cases "phases s j") simp_all
  moreover have "j \<in> set (in_flight_jobs s) \<longleftrightarrow> in_flight (phases s j)"
  proof
    assume "in_flight (phases s j)"
    moreover from this have "phases s j \<noteq> Pending" by auto
    with assms(1) have "j < nextId s" by (rule jobs_inv_known)
    ultimately show "j \<in> set (in_flight_jobs s)" by (simp add: in_flight_jobs_def)
  qed (simp add: in_flight_jobs_def)
  ultimately show "j \<in> set (in_flight_jobs s) \<longleftrightarrow>
      j \<in> fst ` set (removed s) - fst ` set (delivered s)" by simp
qed

subsection \<open>\<open>dispose\<close>\<close>

lemma dispose_loop_delivered:
  "delivered (dispose_loop s) =
     delivered s @ map (\<lambda>e. (ident e, Reject (Error ''Queue has been disposed''))) (queue s)"
proof (induction s rule: dispose_loop.induct)
  case (1 s)
  show ?case
  proof (cases "queue s")
    case Nil
    then show ?thesis by (subst dispose_loop.simps) simp
  next
    case (Cons job rest)
    with "1.IH" [of job rest] show ?thesis
      by (subst dispose_loop.simps) simp
  qed
qed

lemma dispose_loop_removed:
  "removed (dispose_loop s) = removed s @ map (\<lambda>e. (ident e, clock s)) (queue s)"
proof (induction s rule: dispose_loop.induct)
  case (1 s)
  show ?case
  proof (cases "queue s")
    case Nil
    then show ?thesis by (subst dispose_loop.simps) simp
  next
    case (Cons job rest)
    with "1.IH" [of job rest] show ?thesis
      by (subst dispose_loop.simps) simp
  qed
qed

lemma dispose_loop_empty: "queue s = [] \<Longrightarrow> dispose_loop s = s"
  by (subst dispose_loop.simps) simp

lemma isDisposed_again: "isDisposed r \<Longrightarrow> r\<lparr> isDisposed := True \<rparr> = r"
  by (cases r) simp

lemma dispose_idem: "dispose (dispose s) = dispose s"
proof -
  have "isDisposed (dispose s)" by (simp add: dispose_def)
  then have "(dispose s)\<lparr> isDisposed := True \<rparr> = dispose s"
    by (rule isDisposed_again)
  then have "dispose (dispose s) = dispose_loop (dispose s)"
    by (simp only: dispose_def [of "dispose s"])
  moreover have "queue (dispose s) = []" by (simp add: dispose_def)
  ultimately show ?thesis by (simp only: dispose_loop_empty)
qed

lemma dispose_fields [simp]:
  "isDisposed (dispose s)" "queue (dispose s) = []" "timers (dispose s) = timers s"
  "activeJobs (dispose s) = activeJobs s" "clock (dispose s) = clock s"
  "nextId (dispose s) = nextId s" "timeoutLimit (dispose s) = timeoutLimit s"
  "delivered (dispose s) =
     delivered s @ map (\<lambda>e. (ident e, Reject (Error ''Queue has been disposed''))) (queue s)"
  by (simp_all add: dispose_def dispose_loop_delivered)

lemma dispose_in_flight:
  assumes "jobs_inv s" "in_flight (phases s j)"
  shows "phases (dispose s) j = phases s j"
proof -
  from assms(2) have "phases s j \<noteq> Pending" by auto
  with assms(1) have "j \<notin> ident ` set (queue s)" by (rule jobs_inv_not_queued)
  then show ?thesis by (simp add: dispose_def dispose_loop_phases)
qed

lemma schedule_disposed:
  assumes "isDisposed s"
  shows "delivered (schedule s) =
           delivered s @ [(nextId s, Reject (Error ''Queue has been disposed''))]"
    and "queue (schedule s) = queue s" and "activeJobs (schedule s) = activeJobs s"
    and "removed (schedule s) = removed s"
  using assms by (simp_all add: schedule_def Let_def)

subsection \<open>What settling a running job delivers\<close>

lemma task_settles_delivered:
  assumes "phases s j = Running st qt"
  shows "delivered (task_settles j (Fulfilled v) s) =
           delivered s @ [(j, Resolve \<lparr> result = v, queueTime = qt,
                                       executionTime = clock s - st \<rparr>)]"
    and "delivered (task_settles j (Failed err) s) = delivered s @ [(j, Reject err)]"
  using assms by (simp_all add: task_settles_def)

lemma timeout_fires_delivered:
  assumes "phases s j = Running st qt" "timers s (TimeoutTimer, j) = Some due"
  shows "clock s < due \<Longrightarrow> timeout_fires j s = s"
    and "due \<le> clock s \<Longrightarrow>
         delivered (timeout_fires j s) = delivered s @ [(j, Reject (Error ''Job timed out''))]"
  using assms by (simp_all add: timeout_fires_def Let_def)

lemma timeout_fires_settled:
  assumes "phases s j = Settled"
  shows "timeout_fires j s = s \<or>
         timeout_fires j s = s\<lparr> timers := (timers s)((TimeoutTimer, j) := None) \<rparr>"
  using assms by (simp add: timeout_fires_def Let_def split: option.splits)

lemma executeJob_settle_timers [simp]:
  "timers (executeJob_settle j out s) (TimeoutTimer, k) = timers s (TimeoutTimer, k)"
  by (simp add: executeJob_settle_def)

subsection \<open>When an entry is taken from the queue\<close>

lemma processNextJob_removed:
  assumes "removed (processNextJob s) \<noteq> removed s"
  shows "activeJobs s < concurrencyLimit s"
  using assms by (cases s rule: processNextJob_cases) auto

lemma executeJob_settle_removed:
  assumes "removed (executeJob_settle j out s) \<noteq> removed s"
  shows "activeJobs s - 1 < concurrencyLimit s"
  using assms processNextJob_removed [of "s\<lparr> phases := (phases s)(j := Settled),
           delivered := delivered s @ [(j, out)], activeJobs := activeJobs s - 1 \<rparr>"]
  by (simp add: executeJob_settle_def)

lemma step_removed:
  assumes "removed (step e s) \<noteq> removed s"
  shows "e = Dispose \<or> activeJobs s < concurrencyLimit s \<or>
         (\<exists>k. is_running (phases s k) \<and>
              ((\<exists>out. e = TaskSettles k out) \<or> e = TimeoutFires k \<or> e = CatchRuns k))"
proof (cases e)
  case Schedule
  let ?s' = "s\<lparr> nextId := nextId s + 1,
      queue := queue s @ [\<lparr> ident = nextId s, queueStartTime = clock s \<rparr>],
      accepted := accepted s @ [(nextId s, clock s)] \<rparr>"
  from assms Schedule have "\<not> isDisposed s"
    by (auto simp: schedule_disposed)
  with assms Schedule have "removed (processNextJob ?s') \<noteq> removed ?s'"
    by (simp add: schedule_def Let_def)
  then have "activeJobs ?s' < concurrencyLimit ?s'" by (rule processNextJob_removed)
  then show ?thesis by simp
next
  case (RateTimerFires k)
  have "removed (enforceRateLimit_resume k s) = removed s"
    by (simp add: enforceRateLimit_resume_def Let_def split: option.splits phase.splits)
  with assms RateTimerFires show ?thesis by simp
next
  case (JobContinues k c)
  with assms show ?thesis by simp
next
  case (CatchRuns k)
  have "removed (executeJob_catch k s) = removed s" if "\<not> is_running (phases s k)"
    using that by (cases "phases s k") (simp_all add: executeJob_catch_def)
  with assms CatchRuns have "is_running (phases s k)" by auto
  with CatchRuns show ?thesis by blast
next
  case (TaskSettles k out)
  have "removed (task_settles k out s) = removed s" if "\<not> is_running (phases s k)"
    using that by (cases "phases s k") (simp_all add: task_settles_def)
  with assms TaskSettles have "is_running (phases s k)" by auto
  with TaskSettles show ?thesis by blast
next
  case (TimeoutFires k)
  have "removed (timeout_fires k s) = removed s" if "\<not> is_running (phases s k)"
    using that
    by (cases "phases s k") (simp_all add: timeout_fires_def Let_def split: option.splits)
  with assms TimeoutFires have "is_running (phases s k)" by auto
  with TimeoutFires show ?thesis by blast
qed (use assms in simp_all)

lemma in_flight_known:
  assumes "jobs_inv s" "in_flight (phases s j)"
  shows "j < nextId s"
proof -
  from assms(2) have "phases s j \<noteq> Pending" by auto
  with assms(1) show ?thesis by (rule jobs_inv_known)
qed

lemma two_in_flight:
  assumes "jobs_inv s" "in_flight (phases s j)" "in_flight (phases s k)" "j \<noteq> k"
  shows "2 \<le> length (in_flight_jobs s)"
proof -
  from assms have "j < nextId s" "k < nextId s"
    by (simp_all add: in_flight_known)
  with assms have "{j, k} \<subseteq> set (in_flight_jobs s)"
    by (simp add: in_flight_jobs_def)
  then have "card {j, k} \<le> card (set (in_flight_jobs s))"
    by (intro card_mono) simp_all
  moreover have "distinct (in_flight_jobs s)" by (simp add: in_flight_jobs_def)
  ultimately show ?thesis using assms(4) by (simp add: distinct_card)
qed

lemma one_in_flight:
  assumes "jobs_inv s" "in_flight (phases s j)"
  shows "1 \<le> length (in_flight_jobs s)"
proof -
  from assms have "j < nextId s" by (rule in_flight_known)
  with assms have "j \<in> set (in_flight_jobs s)" by (simp add: in_flight_jobs_def)
  then show ?thesis by (cases "in_flight_jobs s") simp_all
qed

lemma disposed_empty_step:
  assumes "isDisposed s" "queue s = []"
  shows "isDisposed (step e s) \<and> queue (step e s) = []"
proof -
  have p: "queue (processNextJob x) = []" if "queue x = []" for x
    using that by (cases x rule: processNextJob_cases) simp_all
  have q: "queue (executeJob_settle k out x) = []" if "queue x = []" for x k out
    unfolding executeJob_settle_def using that by (intro p) simp
  have "queue (step e s) = []"
  proof (cases e)
    case Schedule
    with assms show ?thesis by (simp add: schedule_disposed)
  next
    case (RateTimerFires k)
    with assms show ?thesis
      by (simp add: enforceRateLimit_resume_def Let_def split: option.splits phase.splits)
  next
    case (JobContinues k c)
    with assms show ?thesis by simp
  next
    case (CatchRuns k)
    with assms q show ?thesis
      by (simp add: executeJob_catch_def split: phase.splits)
  next
    case (TaskSettles k out)
    with assms q show ?thesis
      by (simp add: task_settles_def split: phase.splits outcome.splits)
  next
    case (TimeoutFires k)
    with assms q show ?thesis
      by (simp add: timeout_fires_def Let_def split: option.splits phase.splits)
  qed (use assms in simp_all)
  with assms(1) show ?thesis by (simp add: step_isDisposed)
qed

lemma disposed_empty_run:
  assumes "isDisposed s" "queue s = []"
  shows "isDisposed (run evs s) \<and> queue (run evs s) = []"
  by (rule run_invariant [where P = "\<lambda>s. isDisposed s \<and> queue s = []"])
     (simp_all add: assms disposed_empty_step)

lemma dispose_again:
  assumes "isDisposed s" "queue s = []"
  shows "dispose s = s"
proof -
  from assms(1) have "s\<lparr> isDisposed := True \<rparr> = s" by (rule isDisposed_again)
  then have "dispose s = dispose_loop s" by (simp only: dispose_def)
  with assms(2) show ?thesis by (simp only: dispose_loop_empty)
qed

subsection \<open>The timeout timer of a settled job\<close>

lemma settled_timer_step:
  assumes "phases s j = Settled" "e \<noteq> TimeoutFires j"
  shows "timers (step e s) (TimeoutTimer, j) = timers s (TimeoutTimer, j)"
proof (cases e)
  case Schedule
  show ?thesis
    by (cases "isDisposed s") (simp_all add: Schedule schedule_def Let_def)
next
  case Dispose
  then show ?thesis by simp
next
  case (RateTimerFires k)
  then show ?thesis
    by (simp add: enforceRateLimit_resume_def Let_def split: option.splits phase.splits)
next
  case (JobContinues k c)
  with assms(1) show ?thesis
    by (cases "k = j")
       (simp_all add: executeJob_def Let_def split: phase.splits call.splits)
next
  case (CatchRuns k)
  then show ?thesis
    by (simp add: executeJob_catch_def split: phase.splits)
next
  case (TaskSettles k out)
  then show ?thesis
    by (simp add: task_settles_def split: phase.splits outcome.splits)
next
  case (TimeoutFires k)
  with assms(2) have "k \<noteq> j" by simp
  with TimeoutFires show ?thesis
    by (simp add: timeout_fires_def Let_def split: option.splits phase.splits)
qed simp

lemma settled_timer_run:
  assumes "jobs_inv s" "phases s j = Settled" "TimeoutFires j \<notin> set evs"
  shows "timers (run evs s) (TimeoutTimer, j) = timers s (TimeoutTimer, j)"
  using assms
proof (induction evs arbitrary: s)
  case Nil
  then show ?case by simp
next
  case (Cons e evs)
  from Cons.prems have e: "e \<noteq> TimeoutFires j" by auto
  have "timers (run evs (step e s)) (TimeoutTimer, j) = timers (step e s) (TimeoutTimer, j)"
    by (rule Cons.IH)
       (use Cons.prems in \<open>simp_all add: jobs_step settled_step\<close>)
  with settled_timer_step [OF Cons.prems(2) e] show ?case by simp
qed

subsection \<open>The race between a task and its timeout\<close>

text \<open>
  Take a job whose task has returned a promise at \<open>st\<close> and whose race is still open.
  Its timeout timer is pending, due the delay that \<open>setTimeout\<close> makes of \<open>timeoutLimit\<close>
  after \<open>st\<close>, and nothing has been delivered to its future. If the task settles now,
  the future is resolved with the task's value (with \<open>queueTime\<close> and \<open>executionTime\<close>
  beside it) or rejected with the task's own error. If the timer fires now it changes
  nothing before it is due, and once it is due the future is rejected with
  \<open>Error('Job timed out')\<close>. Whatever happens afterwards, no future ever gets a second
  settlement. A task that throws when it is called has its exception passed on.
\<close>

lemma race_outcome:
  assumes "new_JobQueue options = Inr s0" and "s = run evs s0"
    and "phases s j = Running st qt"
  shows "timers s (TimeoutTimer, j) = Some (st + setTimeout_delay (timeoutLimit s0)) \<and>
         j \<notin> fst ` set (delivered s) \<and>
         delivered (step (TaskSettles j (Fulfilled v)) s) =
           delivered s @ [(j, Resolve \<lparr> result = v, queueTime = qt,
                                       executionTime = clock s - st \<rparr>)] \<and>
         delivered (step (TaskSettles j (Failed err)) s) = delivered s @ [(j, Reject err)] \<and>
         delivered (step (TimeoutFires j) s) =
           (if clock s < st + setTimeout_delay (timeoutLimit s0) then delivered s
            else delivered s @ [(j, Reject (Error ''Job timed out''))]) \<and>
         distinct (map fst (delivered (run evs' s)))"
proof -
  from timer_run [OF assms(1), of evs] assms(2,3)
  have t: "timers s (TimeoutTimer, j) = Some (st + setTimeout_delay (timeoutLimit s0))"
    by (simp add: timer_inv_def)
  from deliv_run [OF assms(1), of evs] assms(2) have "deliv_inv s" by simp
  with assms(3) have n: "j \<notin> fst ` set (delivered s)"
    unfolding deliv_inv_def by force
  have "run evs' s = run (evs @ evs') s0" by (simp add: assms(2))
  with deliv_run [OF assms(1), of "evs @ evs'"]
  have d: "distinct (map fst (delivered (run evs' s)))"
    by (simp add: deliv_inv_def)
  have f: "delivered (step (TimeoutFires j) s) =
           (if clock s < st + setTimeout_delay (timeoutLimit s0) then delivered s
            else delivered s @ [(j, Reject (Error ''Job timed out''))])"
    using timeout_fires_delivered [OF assms(3) t] by simp
  from t n d f task_settles_delivered [OF assms(3)] show ?thesis by simp
qed

lemma thrown_outcome:
  assumes "phases s j = Thrown err"
  shows "delivered (step (CatchRuns j) s) = delivered s @ [(j, Reject err)]"
  using assms by (simp add: executeJob_catch_def)

section \<open>The properties\<close>

lemmas eval_defs =
  run_def new_JobQueue_def schedule_def processNextJob_def enforceRateLimit_def
  push_now_def executeJob_def executeJob_catch_def enforceRateLimit_resume_def
  executeJob_settle_def task_settles_def timeout_fires_def setTimeout_delay_def Let_def

lemmas example_defs =
  minute_queue_def minute_options_def serial_queue_def serial_options_def
  long_queue_def long_options_def brief_queue_def brief_options_def
  three_jobs_def waiting_job_def late_start_def after_minute_def quick_job_def
  overtaking_def one_running_two_queued_def second_waits_def early_timeout_def
  returns_and_throws_def

lemma minute_queue_new: "new_JobQueue minute_options = Inr minute_queue"
  by (simp add: minute_queue_def minute_options_def new_JobQueue_def)

lemma serial_queue_new: "new_JobQueue serial_options = Inr serial_queue"
  by (simp add: serial_queue_def serial_options_def new_JobQueue_def)

lemma brief_queue_new: "new_JobQueue brief_options = Inr brief_queue"
  by (simp add: brief_queue_def brief_options_def new_JobQueue_def)

text \<open>
  C1. Whatever the limits and whatever the callers, the timers and the tasks do: the
  jobs taken from the front of \<open>queue\<close> so far (by \<open>processNextJob\<close> or by \<open>dispose\<close>),
  followed by the jobs still in \<open>queue\<close>, are the jobs pushed by \<open>schedule\<close>, in the
  order of the \<open>schedule\<close> calls. So the order of removal is the order of submission, and
  no entry is passed over or moved.
\<close>

theorem fifo_dequeue_order:
  assumes "new_JobQueue options = Inr s0"
  shows "map fst (removed (run evs s0)) @ map ident (queue (run evs s0)) =
           map fst (accepted (run evs s0)) \<and>
         sorted_wrt (<) (map fst (accepted (run evs s0))) \<and>
         sorted_wrt (<) (map fst (removed (run evs s0)))"
proof -
  let ?s = "run evs s0"
  have f: "fifo_inv ?s" using assms by (rule fifo_run)
  then have eq: "map fst (removed ?s) @ map ident (queue ?s) = map fst (accepted ?s)"
    and so: "sorted_wrt (<) (map fst (accepted ?s))"
    by (simp_all add: fifo_inv_def)
  from so have "sorted_wrt (<) (map fst (removed ?s) @ map ident (queue ?s))"
    by (simp only: eq)
  then have "sorted_wrt (<) (map fst (removed ?s))"
    by (simp add: sorted_wrt_append)
  with eq so show ?thesis by blast
qed

theorem fifo_dequeue_order_witness:
  "new_JobQueue minute_options = Inr minute_queue \<and>
   map fst (removed (run three_jobs minute_queue)) = [0, 1, 2] \<and>
   map fst (accepted (run three_jobs minute_queue)) = [0, 1, 2] \<and>
   queue (run three_jobs minute_queue) = []"
  using fifo_dequeue_order [OF minute_queue_new, of three_jobs] minute_queue_new
  by (simp add: example_defs eval_defs)

text \<open>
  C2. With \<open>rateLimit = 1\<close>, three jobs submitted at 0 ms, 1 ms and 2 ms: the second and
  the third both find the first one's timestamp in the window, both wait until
  60000 ms, and both start then. Two tasks are called in the 60000 ms that end at
  60000 ms, and \<open>jobStartTimes\<close> ends as \<open>[0, 1, 2]\<close>, longer than \<open>rateLimit\<close> and with no
  timestamp of the last minute in it.
\<close>

theorem rate_limit_exceeded:
  "rateLimit minute_queue = Some 1 \<and>
   started (run three_jobs minute_queue) = [(0, 0), (1, 60000), (2, 60000)] \<and>
   starts_in_window (run three_jobs minute_queue) 60000 = 2 \<and>
   jobStartTimes (run three_jobs minute_queue) = [0, 1, 2] \<and>
   clock (run three_jobs minute_queue) = 60000"
  by (simp add: example_defs eval_defs starts_in_window_def)

text \<open>
  C3. In every state the queue can reach, \<open>activeJobs\<close> lies between 0 and
  \<open>concurrencyLimit\<close>; the events cover \<open>schedule\<close>, the dispatch in \<open>processNextJob\<close>,
  the settlement of a job by its task or by its timeout, and \<open>dispose\<close>.
\<close>

theorem active_within_limit:
  assumes "new_JobQueue options = Inr s0"
  shows "0 \<le> active (run evs s0) \<and> active (run evs s0) \<le> concurrencyLimit s0"
proof -
  from active_run [OF assms, of evs] have "0 \<le> activeJobs (run evs s0)"
    by (simp add: active_inv_def)
  moreover from bound_run [OF assms, of evs]
  have "activeJobs (run evs s0) \<le> concurrencyLimit s0" by simp
  ultimately show ?thesis by (simp add: active_def)
qed

theorem active_within_limit_witness:
  "new_JobQueue minute_options = Inr minute_queue \<and>
   active (run three_jobs minute_queue) = 3 \<and> concurrencyLimit minute_queue = 1000"
  using active_within_limit [OF minute_queue_new, of three_jobs] minute_queue_new
  by (simp add: example_defs active_def eval_defs)

text \<open>
  C4. With \<open>timeoutLimit = 2147484\<close> (seconds) the constructor stores 2147484000 ms,
  more than \<open>setTimeout\<close> takes: the timeout timer of a job is due 1 ms after its start.
  It fires then and the job's future is rejected with \<open>Error('Job timed out')\<close>; the
  task settles with a value 5 ms after its start, long before the limit, and the value
  is dropped.
\<close>

theorem timeout_after_one_ms:
  "timeoutLimit long_queue = 2147484000 \<and>
   started (run [Schedule, JobContinues 0 Returns] long_queue) = [(0, 0)] \<and>
   timers (run [Schedule, JobContinues 0 Returns] long_queue) (TimeoutTimer, 0) = Some 1 \<and>
   delivered (run [Schedule, JobContinues 0 Returns, Tick 1, TimeoutFires 0] long_queue) =
     [(0, Reject (Error ''Job timed out''))] \<and>
   clock (run early_timeout long_queue) = 5 \<and>
   delivered (run early_timeout long_queue) = [(0, Reject (Error ''Job timed out''))]"
  by (simp add: example_defs eval_defs)

text \<open>
  C5. \<open>dispose\<close> sets the flag and empties the queue, rejecting the future of every entry
  in it, front to back, with \<open>Error('Queue has been disposed')\<close>. The jobs taken from
  the queue before keep their phase, their timers and their place in \<open>activeJobs\<close>; a
  running one whose task settles after \<open>dispose\<close> still gets the task's value or error.
  Whatever happens after \<open>dispose\<close>, a call of \<open>schedule\<close> is rejected with the same
  error and leaves the queue empty, and a second \<open>dispose\<close>, at once or later, changes
  nothing.
\<close>

theorem dispose_rejects_queued:
  assumes "new_JobQueue options = Inr s0" and "s = run evs s0"
  shows "isDisposed (dispose s) \<and> queue (dispose s) = [] \<and>
         delivered (dispose s) =
           delivered s @
           map (\<lambda>e. (ident e, Reject (Error ''Queue has been disposed''))) (queue s) \<and>
         (\<forall>j. in_flight (phases s j) \<longrightarrow> phases (dispose s) j = phases s j) \<and>
         timers (dispose s) = timers s \<and> activeJobs (dispose s) = activeJobs s \<and>
         (\<forall>j st qt. phases s j = Running st qt \<longrightarrow>
            delivered (step (TaskSettles j (Fulfilled v)) (dispose s)) =
              delivered (dispose s) @ [(j, Resolve \<lparr> result = v, queueTime = qt,
                                                   executionTime = clock s - st \<rparr>)] \<and>
            delivered (step (TaskSettles j (Failed err)) (dispose s)) =
              delivered (dispose s) @ [(j, Reject err)]) \<and>
         delivered (step Schedule (run evs' (dispose s))) =
           delivered (run evs' (dispose s)) @
           [(nextId (run evs' (dispose s)), Reject (Error ''Queue has been disposed''))] \<and>
         queue (step Schedule (run evs' (dispose s))) = [] \<and>
         dispose (dispose s) = dispose s \<and>
         dispose (run evs' (dispose s)) = run evs' (dispose s)"
proof -
  from jobs_run [OF assms(1), of evs] assms(2) have j: "jobs_inv s" by simp
  have a: "\<forall>j. in_flight (phases s j) \<longrightarrow> phases (dispose s) j = phases s j"
    using j by (simp add: dispose_in_flight)
  have b: "\<forall>j st qt. phases s j = Running st qt \<longrightarrow>
            delivered (step (TaskSettles j (Fulfilled v)) (dispose s)) =
              delivered (dispose s) @ [(j, Resolve \<lparr> result = v, queueTime = qt,
                                                   executionTime = clock s - st \<rparr>)] \<and>
            delivered (step (TaskSettles j (Failed err)) (dispose s)) =
              delivered (dispose s) @ [(j, Reject err)]"
  proof (intro allI impI)
    fix j st qt
    assume r: "phases s j = Running st qt"
    then have "phases (dispose s) j = Running st qt" using a by simp
    from task_settles_delivered [OF this]
    show "delivered (step (TaskSettles j (Fulfilled v)) (dispose s)) =
              delivered (dispose s) @ [(j, Resolve \<lparr> result = v, queueTime = qt,
                                                   executionTime = clock s - st \<rparr>)] \<and>
            delivered (step (TaskSettles j (Failed err)) (dispose s)) =
              delivered (dispose s) @ [(j, Reject err)]"
      by simp
  qed
  let ?d = "run evs' (dispose s)"
  have c: "isDisposed ?d \<and> queue ?d = []"
    by (rule disposed_empty_run) simp_all
  then have "delivered (step Schedule ?d) =
      delivered ?d @ [(nextId ?d, Reject (Error ''Queue has been disposed''))]"
    and "queue (step Schedule ?d) = []"
    by (simp_all add: schedule_disposed)
  moreover from c have "dispose ?d = ?d" by (simp add: dispose_again)
  ultimately show ?thesis using a b by (simp add: dispose_idem)
qed

theorem dispose_rejects_queued_witness:
  "new_JobQueue serial_options = Inr serial_queue \<and>
   map ident (queue (run one_running_two_queued serial_queue)) = [1, 2] \<and>
   phases (run one_running_two_queued serial_queue) 0 = Running 0 0 \<and>
   in_flight (phases (run one_running_two_queued serial_queue) 0) \<and>
   delivered (dispose (run one_running_two_queued serial_queue)) =
     [(1, Reject (Error ''Queue has been disposed'')),
      (2, Reject (Error ''Queue has been disposed''))] \<and>
   phases (dispose (run one_running_two_queued serial_queue)) 0 = Running 0 0 \<and>
   delivered (step (TaskSettles 0 (Fulfilled (JsValue 7)))
       (dispose (run one_running_two_queued serial_queue))) =
     [(1, Reject (Error ''Queue has been disposed'')),
      (2, Reject (Error ''Queue has been disposed'')),
      (0, Resolve \<lparr> result = JsValue 7, queueTime = 0, executionTime = 3 \<rparr>)] \<and>
   delivered (step Schedule (dispose (run one_running_two_queued serial_queue))) =
     [(1, Reject (Error ''Queue has been disposed'')),
      (2, Reject (Error ''Queue has been disposed'')),
      (3, Reject (Error ''Queue has been disposed''))]"
  using dispose_rejects_queued [OF serial_queue_new,
      of "run one_running_two_queued serial_queue" one_running_two_queued
         "JsValue 7" "Error ''boom''" "[]"]
    serial_queue_new
  by (simp add: example_defs eval_defs dispose_def dispose_loop.simps in_flight_def
        is_running_def)

text \<open>
  C6, as stated, fails. With one job per minute, the second job is submitted and taken
  from the queue at 1 ms, waits in \<open>enforceRateLimit\<close> until 60000 ms, and its task takes
  5 ms: it resolves with \<open>queueTime = 59999\<close>, while the time between its \<open>queue.push\<close>
  and its \<open>queue.shift()\<close> is 0.
\<close>

theorem queueTime_includes_wait:
  "map_of (delivered (run (late_start @ [Tick 5, TaskSettles 1 (Fulfilled (JsValue 7))])
            minute_queue)) 1 =
     Some (Resolve \<lparr> result = JsValue 7, queueTime = 59999, executionTime = 5 \<rparr>) \<and>
   shift_minus_push (run (late_start @ [Tick 5, TaskSettles 1 (Fulfilled (JsValue 7))])
            minute_queue) 1 = Some 0"
  by (simp add: example_defs eval_defs shift_minus_push_def)

text \<open>
  C6, amended. For every job that resolves, the reported \<open>queueTime\<close> is the time at
  which \<open>executeJob\<close> began for it (after \<open>enforceRateLimit\<close> had returned, so after any
  rate-limit wait) minus its submission time, and it is not negative. Each job has one
  submission time and at most one start time.
\<close>

theorem queueTime_start_minus_submission:
  assumes "new_JobQueue options = Inr s0" and "s = run evs s0"
    and "(j, Resolve r) \<in> set (delivered s)"
  shows "\<exists>sub st. map_of (accepted s) j = Some sub \<and> map_of (started s) j = Some st \<and>
           queueTime r = st - sub \<and> 0 \<le> queueTime r"
proof -
  from time_run [OF assms(1), of evs] assms(2) have t: "time_inv s" by simp
  with assms(3) obtain st where
    st: "(j, st) \<in> set (started s)" "(j, st - queueTime r) \<in> set (accepted s)"
    and nn: "0 \<le> queueTime r"
    unfolding time_inv_def by blast
  from t have "distinct (map fst (started s))" by (simp add: time_inv_def)
  with st(1) have 1: "map_of (started s) j = Some st" by simp
  from fifo_run [OF assms(1), of evs] assms(2)
  have "sorted_wrt (<) (map fst (accepted s))" by (simp add: fifo_inv_def)
  then have "distinct (map fst (accepted s))" by (simp add: strict_sorted_iff)
  with st(2) have 2: "map_of (accepted s) j = Some (st - queueTime r)" by simp
  from 1 2 nn show ?thesis by simp
qed

theorem queueTime_start_minus_submission_witness:
  "new_JobQueue minute_options = Inr minute_queue \<and>
   (1, Resolve \<lparr> result = JsValue 7, queueTime = 59999, executionTime = 5 \<rparr>) \<in>
     set (delivered (run (late_start @ [Tick 5, TaskSettles 1 (Fulfilled (JsValue 7))])
            minute_queue)) \<and>
   map_of (accepted (run (late_start @ [Tick 5, TaskSettles 1 (Fulfilled (JsValue 7))])
            minute_queue)) 1 = Some 1 \<and>
   map_of (started (run (late_start @ [Tick 5, TaskSettles 1 (Fulfilled (JsValue 7))])
            minute_queue)) 1 = Some 60000"
  using queueTime_start_minus_submission [OF minute_queue_new,
      of "run (late_start @ [Tick 5, TaskSettles 1 (Fulfilled (JsValue 7))]) minute_queue"
         "late_start @ [Tick 5, TaskSettles 1 (Fulfilled (JsValue 7))]" 1
         "\<lparr> result = JsValue 7, queueTime = 59999, executionTime = 5 \<rparr>"]
    minute_queue_new
  by (simp add: example_defs eval_defs)

text \<open>
  C7, as stated, fails. With one job per minute, the second job is taken from the queue
  at 1 ms and waits in \<open>enforceRateLimit\<close>; its task has not been called. Only the first
  job's task is being executed, and \<open>active()\<close> is 2.
\<close>

theorem active_counts_waiting_job:
  "active (run waiting_job minute_queue) = 2 \<and>
   executing_jobs (run waiting_job minute_queue) = [0] \<and>
   phases (run waiting_job minute_queue) 1 = RateWait \<lparr> ident = 1, queueStartTime = 1 \<rparr> 1 \<and>
   started (run waiting_job minute_queue) = [(0, 0)]"
  by (simp add: example_defs eval_defs active_def executing_jobs_def is_running_def upt_rec)

text \<open>
  C7, amended. \<open>activeJobs\<close> is incremented when \<open>processNextJob\<close> takes an entry from the
  queue, before \<open>enforceRateLimit\<close> and before the task is called, and decremented when
  the job settles, by its task or by its timeout. So in every state \<open>active()\<close> is the
  number of jobs that have been taken from the queue and whose future is not settled
  yet: those waiting in \<open>enforceRateLimit\<close> or about to call their task, and those whose
  task has been called.
\<close>

theorem active_counts_dequeued:
  assumes "new_JobQueue options = Inr s0"
  shows "active (run evs s0) =
           int (card (fst ` set (removed (run evs s0)) - fst ` set (delivered (run evs s0)))) \<and>
         active (run evs s0) = int (length (in_flight_jobs (run evs s0))) \<and>
         set (in_flight_jobs (run evs s0)) =
           {j. in_admission (phases (run evs s0) j) \<or> is_running (phases (run evs s0) j)}"
proof -
  let ?s = "run evs s0"
  from active_run [OF assms, of evs]
  have ji: "jobs_inv ?s" and a: "active ?s = int (length (in_flight_jobs ?s))"
    by (simp_all add: active_inv_def active_def)
  from log_run [OF assms, of evs] have "log_inv ?s" by simp
  with ji have l: "set (in_flight_jobs ?s) = fst ` set (removed ?s) - fst ` set (delivered ?s)"
    by (rule in_flight_jobs_logs)
  have "distinct (in_flight_jobs ?s)" by (simp add: in_flight_jobs_def)
  then have "length (in_flight_jobs ?s) = card (set (in_flight_jobs ?s))"
    by (simp add: distinct_card)
  with a l have c: "active ?s = int (card (fst ` set (removed ?s) - fst ` set (delivered ?s)))"
    by simp
  have "set (in_flight_jobs ?s) = {j. in_admission (phases ?s j) \<or> is_running (phases ?s j)}"
    using in_flight_known [OF ji] by (auto simp: in_flight_jobs_def in_flight_def)
  with a c show ?thesis by simp
qed

theorem active_counts_dequeued_witness:
  "new_JobQueue minute_options = Inr minute_queue \<and>
   active (run waiting_job minute_queue) = 2 \<and>
   removed (run waiting_job minute_queue) = [(0, 0), (1, 1)] \<and>
   delivered (run waiting_job minute_queue) = [] \<and>
   in_flight_jobs (run waiting_job minute_queue) = [0, 1] \<and>
   is_running (phases (run waiting_job minute_queue) 0) \<and>
   in_admission (phases (run waiting_job minute_queue) 1)"
  using active_counts_dequeued [OF minute_queue_new, of waiting_job] minute_queue_new
  by (simp add: example_defs eval_defs active_def in_flight_jobs_def in_flight_def
        is_running_def in_admission_def upt_rec)

text \<open>
  C8. With \<open>rateLimit = 1\<close>, a job submitted at 1 ms waits in \<open>enforceRateLimit\<close> until
  60000 ms. The timestamp appended for it when the wait is over is 1, the \<open>now\<close> read
  before the wait, and its task is called at 60000 ms. A third job submitted at 60002 ms
  finds that timestamp older than a minute and starts at once, 2 ms after the second.
\<close>

theorem stale_timestamp_appended:
  "clock (run late_start minute_queue) = 60000 \<and>
   appended (run late_start minute_queue) = [(0, 0), (1, 1)] \<and>
   jobStartTimes (run late_start minute_queue) = [0, 1] \<and>
   started (run late_start minute_queue) = [(0, 0), (1, 60000)] \<and>
   started (run after_minute minute_queue) = [(0, 0), (1, 60000), (2, 60002)]"
  by (simp add: example_defs eval_defs)

text \<open>
  C9, as stated, fails. With one job per minute, the second job is taken from the queue
  at 1 ms and waits in \<open>enforceRateLimit\<close>. A third job submitted at 2 ms is taken from the
  queue at once, while the second is still waiting. And a third job submitted instead
  at 60000 ms, when the second job's timer is due but has not run yet, finds the window
  empty, is taken from the queue and starts at once: it starts before the second job
  does.
\<close>

theorem dequeued_during_wait:
  "phases (run (waiting_job @ [Tick 1]) minute_queue) 1 =
     RateWait \<lparr> ident = 1, queueStartTime = 1 \<rparr> 1 \<and>
   removed (run (waiting_job @ [Tick 1]) minute_queue) = [(0, 0), (1, 1)] \<and>
   removed (step Schedule (run (waiting_job @ [Tick 1]) minute_queue)) =
     [(0, 0), (1, 1), (2, 2)] \<and>
   phases (step Schedule (run (waiting_job @ [Tick 1]) minute_queue)) 1 =
     RateWait \<lparr> ident = 1, queueStartTime = 1 \<rparr> 1 \<and>
   phases (run (waiting_job @ [Tick 59999, Schedule, JobContinues 2 Returns]) minute_queue) 1 =
     RateWait \<lparr> ident = 1, queueStartTime = 1 \<rparr> 1 \<and>
   started (run (waiting_job @ [Tick 59999, Schedule, JobContinues 2 Returns]) minute_queue) =
     [(0, 0), (2, 60000)] \<and>
   accepted (run overtaking minute_queue) = [(0, 0), (1, 1), (2, 60000)] \<and>
   started (run overtaking minute_queue) = [(0, 0), (2, 60000), (1, 60000)]"
  by (simp add: example_defs eval_defs)

text \<open>
  C9, amended. While an entry taken from the queue has not settled (during its
  admission, any rate-limit wait included, and while it runs) it is one of the jobs
  that \<open>activeJobs\<close> counts, and \<open>activeJobs\<close> is exactly their number. A later entry is
  taken from the queue only by a dispatch that finds \<open>activeJobs < concurrencyLimit\<close>,
  either at once or because the event is the settlement of a job whose task had been
  called, or by \<open>dispose\<close>. With \<open>concurrencyLimit = 1\<close>, as long as the entry has not
  settled, the only events that take a later entry from the queue are \<open>dispose\<close> and
  the settlement of that very entry after the call of its task; so during its admission
  only \<open>dispose\<close> does. The order in which the jobs taken from the queue start is left
  open.
\<close>

theorem dequeue_needs_free_place:
  assumes "new_JobQueue options = Inr s0" and "s = run evs s0"
    and "in_flight (phases s j)"
  shows "j \<in> set (in_flight_jobs s) \<and> activeJobs s = int (length (in_flight_jobs s)) \<and>
         (removed (step e s) \<noteq> removed s \<longrightarrow>
            e = Dispose \<or> activeJobs s < concurrencyLimit s0 \<or>
            (\<exists>k. is_running (phases s k) \<and>
                 ((\<exists>out. e = TaskSettles k out) \<or> e = TimeoutFires k \<or> e = CatchRuns k))) \<and>
         (concurrencyLimit s0 = 1 \<and> removed (step e s) \<noteq> removed s \<longrightarrow>
            e = Dispose \<or>
            is_running (phases s j) \<and>
              ((\<exists>out. e = TaskSettles j out) \<or> e = TimeoutFires j \<or> e = CatchRuns j))"
proof -
  have c: "concurrencyLimit s = concurrencyLimit s0" by (simp add: assms(2))
  have 1: "removed (step e s) \<noteq> removed s \<longrightarrow>
            e = Dispose \<or> activeJobs s < concurrencyLimit s0 \<or>
            (\<exists>k. is_running (phases s k) \<and>
                 ((\<exists>out. e = TaskSettles k out) \<or> e = TimeoutFires k \<or> e = CatchRuns k))"
    using step_removed [of e s] c by simp
  from active_run [OF assms(1), of evs] assms(2)
  have ji: "jobs_inv s" and ai: "activeJobs s = int (length (in_flight_jobs s))"
    by (simp_all add: active_inv_def)
  from in_flight_known [OF ji assms(3)] assms(3)
  have m: "j \<in> set (in_flight_jobs s)" by (simp add: in_flight_jobs_def)
  from one_in_flight [OF ji assms(3)] ai have a1: "1 \<le> activeJobs s" by simp
  have 2: "e = Dispose \<or>
            is_running (phases s j) \<and>
              ((\<exists>out. e = TaskSettles j out) \<or> e = TimeoutFires j \<or> e = CatchRuns j)"
    if one: "concurrencyLimit s0 = 1" and ch: "removed (step e s) \<noteq> removed s"
  proof (cases "e = Dispose")
    case False
    from bound_run [OF assms(1), of evs] assms(2) one have b: "activeJobs s \<le> 1" by simp
    from 1 ch False one a1 obtain k where k: "is_running (phases s k)"
      "(\<exists>out. e = TaskSettles k out) \<or> e = TimeoutFires k \<or> e = CatchRuns k" by auto
    from k(1) have fk: "in_flight (phases s k)" by (simp add: in_flight_def)
    have "k = j"
    proof (rule ccontr)
      assume "k \<noteq> j"
      then have "j \<noteq> k" by simp
      from two_in_flight [OF ji assms(3) fk this] ai have "2 \<le> activeJobs s" by simp
      with b show False by simp
    qed
    with k show ?thesis by simp
  qed simp
  from m ai 1 2 show ?thesis by blast
qed

theorem dequeue_needs_free_place_witness:
  "new_JobQueue minute_options = Inr minute_queue \<and>
   in_flight (phases (run (waiting_job @ [Tick 1]) minute_queue) 1) \<and>
   in_flight_jobs (run (waiting_job @ [Tick 1]) minute_queue) = [0, 1] \<and>
   removed (step Schedule (run (waiting_job @ [Tick 1]) minute_queue)) \<noteq>
     removed (run (waiting_job @ [Tick 1]) minute_queue) \<and>
   activeJobs (run (waiting_job @ [Tick 1]) minute_queue) = 2 \<and>
   concurrencyLimit minute_queue = 1000 \<and>
   new_JobQueue serial_options = Inr serial_queue \<and>
   concurrencyLimit serial_queue = 1 \<and>
   in_flight (phases (run one_running_two_queued serial_queue) 0) \<and>
   is_running (phases (run one_running_two_queued serial_queue) 0) \<and>
   removed (step (TaskSettles 0 (Fulfilled (JsValue 7)))
       (run one_running_two_queued serial_queue)) \<noteq>
     removed (run one_running_two_queued serial_queue) \<and>
   removed (step Schedule (run one_running_two_queued serial_queue)) =
     removed (run one_running_two_queued serial_queue)"
  using dequeue_needs_free_place [OF minute_queue_new,
      of "run (waiting_job @ [Tick 1]) minute_queue" "waiting_job @ [Tick 1]" 1 Schedule]
    dequeue_needs_free_place [OF serial_queue_new,
      of "run one_running_two_queued serial_queue" one_running_two_queued 0
         "TaskSettles 0 (Fulfilled (JsValue 7))"]
    minute_queue_new serial_queue_new
  by (simp add: example_defs eval_defs in_flight_def in_admission_def is_running_def
        in_flight_jobs_def upt_rec)

text \<open>
  C10, as stated, fails. A job's task settles 5 ms after its start: the job's future is
  resolved, and the timeout timer armed at its start is still pending, due at
  1200000 ms.
\<close>

theorem timer_pending_after_settlement:
  "delivered (run (quick_job @ [TaskSettles 0 (Fulfilled (JsValue 7))]) minute_queue) =
     [(0, Resolve \<lparr> result = JsValue 7, queueTime = 0, executionTime = 5 \<rparr>)] \<and>
   phases (run (quick_job @ [TaskSettles 0 (Fulfilled (JsValue 7))]) minute_queue) 0 =
     Settled \<and>
   timers (run (quick_job @ [TaskSettles 0 (Fulfilled (JsValue 7))]) minute_queue)
     (TimeoutTimer, 0) = Some 1200000"
  by (simp add: example_defs eval_defs)

text \<open>
  C10, amended. A job has a timeout timer only if the call of its task returned a
  promise; a job whose task threw when it was called has none, before and after its
  \<open>catch\<close> block. When the promise settles before the timer fires, the timer is not
  cancelled: it stays pending until it fires, due after the job's start by the delay
  that \<open>setTimeout\<close> makes of \<open>timeoutLimit\<close> (the milliseconds truncated to an integer,
  or 1 ms when they are more than 2147483647 or less than 1). When it fires, whatever
  has happened in between, its rejection is discarded: the state of the queue stays as
  it is, except that the timer is no longer pending.
\<close>

theorem late_timeout_discarded:
  assumes "new_JobQueue options = Inr s0" and "s = run evs s0"
    and "phases s j = Running st qt"
    and "s' = run evs' (step (TaskSettles j out) s)"
  shows "timers s (TimeoutTimer, j) = Some (st + setTimeout_delay (timeoutLimit s0)) \<and>
         timers (step (TaskSettles j out) s) (TimeoutTimer, j) =
           Some (st + setTimeout_delay (timeoutLimit s0)) \<and>
         (TimeoutFires j \<notin> set evs' \<longrightarrow>
            timers s' (TimeoutTimer, j) = Some (st + setTimeout_delay (timeoutLimit s0))) \<and>
         (step (TimeoutFires j) s' = s' \<or>
          step (TimeoutFires j) s' = s'\<lparr> timers := (timers s')((TimeoutTimer, j) := None) \<rparr>) \<and>
         (\<forall>k err. phases s k = Thrown err \<longrightarrow>
            timers s (TimeoutTimer, k) = None \<and>
            timers (step (CatchRuns k) s) (TimeoutTimer, k) = None)"
proof -
  from timer_run [OF assms(1), of evs] assms(2)
  have ji: "jobs_inv s" and ti: "timer_inv s" by simp_all
  from ti assms(2,3)
  have 0: "timers s (TimeoutTimer, j) = Some (st + setTimeout_delay (timeoutLimit s0))"
    by (simp add: timer_inv_def)
  with assms(3) have 1:
    "timers (step (TaskSettles j out) s) (TimeoutTimer, j) =
       Some (st + setTimeout_delay (timeoutLimit s0))"
    by (cases out) (simp_all add: task_settles_def)
  let ?s1 = "step (TaskSettles j out) s"
  from jobs_run [OF assms(1), of "evs @ [TaskSettles j out]"] assms(2)
  have "jobs_inv ?s1" by simp
  moreover have "phases ?s1 j = Settled"
  proof -
    have ji': "jobs_inv (s\<lparr> phases := (phases s)(j := Settled),
           delivered := delivered s @ [(j, x)], activeJobs := activeJobs s - 1 \<rparr>)" for x
      by (rule jobs_inv_move [OF ji, of j Settled]) (simp_all add: assms(3))
    have "phases (executeJob_settle j x s) j = Settled" for x
      unfolding executeJob_settle_def
      by (rule settled_processNextJob [OF ji']) simp
    with assms(3) show ?thesis by (cases out) (simp_all add: task_settles_def)
  qed
  ultimately have 2: "jobs_inv ?s1" "phases ?s1 j = Settled" "phases s' j = Settled"
    using settled_run [of ?s1 j evs'] assms(4) by simp_all
  have 3: "timers s' (TimeoutTimer, j) = Some (st + setTimeout_delay (timeoutLimit s0))"
    if "TimeoutFires j \<notin> set evs'"
    using settled_timer_run [OF 2(1,2) that] 1 assms(4) by simp
  have 4: "\<forall>k err. phases s k = Thrown err \<longrightarrow>
            timers s (TimeoutTimer, k) = None \<and>
            timers (step (CatchRuns k) s) (TimeoutTimer, k) = None"
  proof (intro allI impI)
    fix k err
    assume th: "phases s k = Thrown err"
    with ti have "timers s (TimeoutTimer, k) = None" by (intro timer_none) simp_all
    with th show "timers s (TimeoutTimer, k) = None \<and>
            timers (step (CatchRuns k) s) (TimeoutTimer, k) = None"
      by (simp add: executeJob_catch_def)
  qed
  from timeout_fires_settled [OF 2(3)] 0 1 3 4 show ?thesis by simp
qed

theorem late_timeout_discarded_witness:
  "new_JobQueue brief_options = Inr brief_queue \<and>
   timeoutLimit brief_queue = 200 \<and>
   phases (run returns_and_throws brief_queue) 0 = Running 0 0 \<and>
   phases (run returns_and_throws brief_queue) 1 = Thrown (Error ''boom'') \<and>
   timers (run returns_and_throws brief_queue) (TimeoutTimer, 0) = Some 200 \<and>
   timers (run returns_and_throws brief_queue) (TimeoutTimer, 1) = None \<and>
   timers (step (TaskSettles 0 (Fulfilled (JsValue 7))) (run returns_and_throws brief_queue))
     (TimeoutTimer, 0) = Some 200 \<and>
   TimeoutFires 0 \<notin> set [Tick 195] \<and>
   timers (run [Tick 195] (step (TaskSettles 0 (Fulfilled (JsValue 7)))
        (run returns_and_throws brief_queue))) (TimeoutTimer, 0) = Some 200 \<and>
   delivered (step (TimeoutFires 0)
     (run [Tick 195] (step (TaskSettles 0 (Fulfilled (JsValue 7)))
        (run returns_and_throws brief_queue)))) =
     [(0, Resolve \<lparr> result = JsValue 7, queueTime = 0, executionTime = 5 \<rparr>)] \<and>
   timers (step (TimeoutFires 0)
     (run [Tick 195] (step (TaskSettles 0 (Fulfilled (JsValue 7)))
        (run returns_and_throws brief_queue)))) (TimeoutTimer, 0) = None \<and>
   delivered (step (CatchRuns 1) (run returns_and_throws brief_queue)) =
     [(1, Reject (Error ''boom''))]"
  using late_timeout_discarded [OF brief_queue_new,
      of "run returns_and_throws brief_queue" returns_and_throws 0 0 0
         "run [Tick 195] (step (TaskSettles 0 (Fulfilled (JsValue 7)))
            (run returns_and_throws brief_queue))" "[Tick 195]" "Fulfilled (JsValue 7)"]
    brief_queue_new
  by (simp add: example_defs eval_defs)

end
